theory Spec2Isabelle
  imports Complex_Main "HOL-Library.AList" "HOL-Library.Sublist"
begin

section \<open>Dataset preparation over a directory tree\<close>

text \<open>
  This theory embeds \<^verbatim>\<open>src/dataset_preparator.py\<close> (class \<^verbatim>\<open>DatasetPreparator\<close>) and
  proves properties of its five operations: flattening, splitting, label
  normalisation, cleaning and manifest writing.

  Conventions of the embedding.
  \<^item> The base directory is a tree of named entries; a path is the list of components
    below the base directory, so \<open>[]\<close> is the base directory itself. Entries of a
    directory are kept in listing order, the order in which the operating system would
    enumerate them. The constructor of the class makes the base directory, so the tree
    of a state the program runs in is a directory.
  \<^item> The file system is ideal: an operation fails only for a structural reason (a missing
    entry, a directory where a file is needed, a file where a directory is needed, a
    directory that is not empty). Permissions, symbolic links, several devices and
    I/O faults are outside the model. Rename follows POSIX. The one exception is
    \<open>remove_empty_dirs_faults\<close>, which embeds \<^verbatim>\<open>remove_empty_dirs\<close> a second time, over a
    file system that refuses some calls.
  \<^item> File contents are the decoded text (a list of Unicode code points); a file that is
    not valid UTF-8 is outside the model.
  \<^item> Every exception is a value. A primitive either fails and leaves the tree as it
    was, or succeeds with the new tree. A method returns an \<open>outcome\<close>: it either
    returned, or raised an exception to its caller; both carry the state reached.
  \<^item> The worker pool is modelled by one schedule: the tasks run one after the other,
    in the order of the argument list, each task to its end.
  \<^item> A leading underscore of a Python name is dropped
    (\<^verbatim>\<open>_move_file_safely\<close> is \<open>move_file_safely\<close>).
\<close>

subsection \<open>Text: Python strings as code point lists\<close>

type_synonym codepoint = nat
type_synonym pystr = "codepoint list"

definition LF :: codepoint where "LF = 10"
definition CR :: codepoint where "CR = 13"
definition SP :: codepoint where "SP = 32"

text \<open>
  The code points for which \<^verbatim>\<open>str.isspace\<close> holds; \<^verbatim>\<open>str.strip()\<close> and
  \<^verbatim>\<open>str.split()\<close> without argument use exactly this set.
\<close>

definition isspace :: "codepoint \<Rightarrow> bool" where
  "isspace c \<longleftrightarrow>
     (9 \<le> c \<and> c \<le> 13) \<or> (28 \<le> c \<and> c \<le> 32) \<or> c = 133 \<or> c = 160 \<or> c = 5760 \<or>
     (8192 \<le> c \<and> c \<le> 8202) \<or> c = 8232 \<or> c = 8233 \<or> c = 8239 \<or> c = 8287 \<or> c = 12288"

text \<open>
  A file opened in text mode with the default \<^verbatim>\<open>newline=None\<close> translates
  CR LF and a lone CR to LF on reading; on writing, POSIX
  leaves LF as it is.
\<close>

fun universal_newlines :: "pystr \<Rightarrow> pystr" where
  "universal_newlines [] = []"
| "universal_newlines [c] = (if c = CR then [LF] else [c])"
| "universal_newlines (c # d # cs) =
     (if c = CR then (if d = LF then LF # universal_newlines cs else LF # universal_newlines (d # cs))
      else c # universal_newlines (d # cs))"

text \<open>\<^verbatim>\<open>readlines\<close> cuts after every LF and keeps it; the last line may lack one.\<close>

fun readlines :: "pystr \<Rightarrow> pystr list" where
  "readlines [] = []"
| "readlines (c # cs) =
     (if c = LF then [LF] # readlines cs
      else (case readlines cs of
              [] \<Rightarrow> [[c]]
            | l # ls \<Rightarrow> (c # l) # ls))"

definition file_readlines :: "pystr \<Rightarrow> pystr list" where
  "file_readlines content = readlines (universal_newlines content)"

definition str_strip :: "pystr \<Rightarrow> pystr" where
  "str_strip s = rev (dropWhile isspace (rev (dropWhile isspace s)))"

function str_split :: "pystr \<Rightarrow> pystr list" where
  "str_split [] = []"
| "str_split (c # cs) =
     (if isspace c then str_split cs
      else takeWhile (\<lambda>x. \<not> isspace x) (c # cs) # str_split (dropWhile (\<lambda>x. \<not> isspace x) cs))"
  by pat_completeness auto
termination
  by (relation "measure length") (auto simp: le_imp_less_Suc length_dropWhile_le)

fun str_join :: "pystr \<Rightarrow> pystr list \<Rightarrow> pystr" where
  "str_join sep [] = []"
| "str_join sep [p] = p"
| "str_join sep (p # q # ps) = p @ sep @ str_join sep (q # ps)"

text \<open>
  The loop of \<^verbatim>\<open>_reset_label_classes\<close> over the lines read: \<open>[48]\<close> is the string
  \<^verbatim>\<open>'0'\<close>, and \<open>parts[0 := [48]]\<close> is the assignment \<^verbatim>\<open>parts[0] = '0'\<close>, made only
  when \<open>parts\<close> is not empty. The result of \<open>reset_label_text\<close> is what the file holds
  after \<^verbatim>\<open>seek(0)\<close>, \<^verbatim>\<open>writelines(updated)\<close> and \<^verbatim>\<open>truncate()\<close>.
\<close>

fun updated_lines :: "pystr list \<Rightarrow> pystr list" where
  "updated_lines [] = []"
| "updated_lines (line # lines) =
     (let parts = str_split (str_strip line)
      in if parts \<noteq> [] then (str_join [SP] (parts[0 := [48]]) @ [LF]) # updated_lines lines
         else updated_lines lines)"

definition reset_label_text :: "pystr \<Rightarrow> pystr" where
  "reset_label_text content = concat (updated_lines (file_readlines content))"

subsection \<open>File names and extensions\<close>

type_synonym name = string
type_synonym path = "name list"

text \<open>
  \<^verbatim>\<open>Path.suffix\<close> as pathlib computes it from the last component (CPython up to
  3.12): with \<open>i\<close> the index of the last dot, the part from \<open>i\<close> on when
  \<open>0 < i < len(name) - 1\<close>, and the empty string otherwise.
\<close>

definition rfind :: "char \<Rightarrow> string \<Rightarrow> int" where
  "rfind c s =
     (if c \<in> set s then int (length s) - 1 - int (length (takeWhile (\<lambda>x. x \<noteq> c) (rev s)))
      else - 1)"

definition py_suffix :: "name \<Rightarrow> string" where
  "py_suffix nm =
     (let i = rfind (CHR ''.'') nm
      in if 0 < i \<and> i < int (length nm) - 1 then drop (nat i) nm else [])"

text \<open>
  \<^verbatim>\<open>str.lower\<close> on the letters A to Z. No character outside ASCII has a lower-case
  form that is one of the three allowed extensions, so on the membership test of
  \<^verbatim>\<open>remove_unwanted_files\<close> this agrees with Python.
\<close>

definition lower_char :: "char \<Rightarrow> char" where
  "lower_char c =
     (let k = (of_char c :: nat) in if 65 \<le> k \<and> k \<le> 90 then char_of (k + 32) else c)"

definition lower :: "string \<Rightarrow> string" where
  "lower s = map lower_char s"

definition endswith :: "string \<Rightarrow> string \<Rightarrow> bool" where
  "endswith s suf \<longleftrightarrow> length suf \<le> length s \<and> drop (length s - length suf) s = suf"

subsection \<open>The directory tree\<close>

datatype node = File pystr | Dir "(name \<times> node) list"

datatype error =
    FileNotFoundError | FileExistsError | IsADirectoryError | NotADirectoryError
  | OSError | ShutilError | PermissionError

text \<open>
  \<open>lookup t p\<close> is the entry at path \<open>p\<close>, if there is one. \<open>errno t p\<close> is the
  exception a system call raises for a path that does not resolve: a regular file on
  the way gives \<open>NotADirectoryError\<close>, a missing component \<open>FileNotFoundError\<close>.
  \<open>alter p v t\<close> stores \<open>v\<close> at \<open>p\<close> (\<open>None\<close> removes the entry); it changes
  nothing when the parent of \<open>p\<close> is not a directory.
\<close>

fun lookup :: "node \<Rightarrow> path \<Rightarrow> node option" where
  "lookup t [] = Some t"
| "lookup (File c) (x # xs) = None"
| "lookup (Dir es) (x # xs) = (case map_of es x of None \<Rightarrow> None | Some c \<Rightarrow> lookup c xs)"

fun errno :: "node \<Rightarrow> path \<Rightarrow> error" where
  "errno t [] = FileNotFoundError"
| "errno (File c) (x # xs) = NotADirectoryError"
| "errno (Dir es) (x # xs) =
     (case map_of es x of None \<Rightarrow> FileNotFoundError | Some c \<Rightarrow> errno c xs)"

fun alter :: "path \<Rightarrow> node option \<Rightarrow> node \<Rightarrow> node" where
  "alter [] v t = t"
| "alter (x # xs) v (File c) = File c"
| "alter [x] v (Dir es) =
     Dir (case v of None \<Rightarrow> AList.delete x es | Some n \<Rightarrow> AList.update x n es)"
| "alter (x # y # ys) v (Dir es) =
     (case map_of es x of
        None \<Rightarrow> Dir es
      | Some c \<Rightarrow> Dir (AList.update x (alter (y # ys) v c) es))"

definition exists :: "node \<Rightarrow> path \<Rightarrow> bool" where
  "exists t p \<longleftrightarrow> lookup t p \<noteq> None"

definition is_file :: "node \<Rightarrow> path \<Rightarrow> bool" where
  "is_file t p = (case lookup t p of Some (File c) \<Rightarrow> True | _ \<Rightarrow> False)"

definition is_dir :: "node \<Rightarrow> path \<Rightarrow> bool" where
  "is_dir t p = (case lookup t p of Some (Dir es) \<Rightarrow> True | _ \<Rightarrow> False)"

text \<open>\<^verbatim>\<open>Path.unlink\<close>: removes a regular file and refuses a directory.\<close>

definition unlink :: "path \<Rightarrow> node \<Rightarrow> error + node" where
  "unlink p t =
     (case lookup t p of
        None \<Rightarrow> Inl (errno t p)
      | Some (Dir es) \<Rightarrow> Inl IsADirectoryError
      | Some (File c) \<Rightarrow> if p = [] then Inl OSError else Inr (alter p None t))"

text \<open>
  Opening a file and reading all of it, and opening a file for writing and replacing
  its content. Writing creates the file when its directory exists.
\<close>

definition read_text :: "path \<Rightarrow> node \<Rightarrow> error + pystr" where
  "read_text p t =
     (case lookup t p of
        None \<Rightarrow> Inl (errno t p)
      | Some (Dir es) \<Rightarrow> Inl IsADirectoryError
      | Some (File c) \<Rightarrow> Inr c)"

definition write_text :: "path \<Rightarrow> pystr \<Rightarrow> node \<Rightarrow> error + node" where
  "write_text p c t =
     (case lookup t p of
        Some (Dir es) \<Rightarrow> Inl IsADirectoryError
      | Some (File old) \<Rightarrow> if p = [] then Inl OSError else Inr (alter p (Some (File c)) t)
      | None \<Rightarrow>
          (case lookup t (butlast p) of
             Some (Dir es) \<Rightarrow> Inr (alter p (Some (File c)) t)
           | _ \<Rightarrow> Inl (errno t p)))"

text \<open>
  \<^verbatim>\<open>Path.mkdir(parents=True, exist_ok=True)\<close>: creates the directory and every missing
  parent, accepts a directory that is already there, and fails when a regular file
  is at the path or on the way to it.
\<close>

fun fresh_dirs :: "path \<Rightarrow> node" where
  "fresh_dirs [] = Dir []"
| "fresh_dirs (x # xs) = Dir [(x, fresh_dirs xs)]"

fun mkdir_parents :: "path \<Rightarrow> node \<Rightarrow> error + node" where
  "mkdir_parents [] (Dir es) = Inr (Dir es)"
| "mkdir_parents [] (File c) = Inl FileExistsError"
| "mkdir_parents (x # xs) (File c) = Inl NotADirectoryError"
| "mkdir_parents (x # xs) (Dir es) =
     (case map_of es x of
        None \<Rightarrow> Inr (Dir (AList.update x (fresh_dirs xs) es))
      | Some c \<Rightarrow>
          (case mkdir_parents xs c of
             Inl e \<Rightarrow> Inl e
           | Inr c' \<Rightarrow> Inr (Dir (AList.update x c' es))))"

text \<open>
  \<^verbatim>\<open>os.rename\<close> with the semantics of POSIX \<^verbatim>\<open>rename(2)\<close>: a regular file replaces
  an existing regular file, a directory replaces an existing empty directory, a path
  renamed to itself is left alone, and nothing can be moved below itself.
\<close>

definition os_rename :: "path \<Rightarrow> path \<Rightarrow> node \<Rightarrow> error + node" where
  "os_rename src dst t =
     (case lookup t src of
        None \<Rightarrow> Inl (errno t src)
      | Some s \<Rightarrow>
          if src = [] \<or> dst = [] then Inl OSError
          else if src = dst then Inr t
          else if prefix src dst then
            (case s of Dir es \<Rightarrow> Inl OSError | File c \<Rightarrow> Inl NotADirectoryError)
          else
            (case lookup t (butlast dst) of
               None \<Rightarrow> Inl (errno t (butlast dst))
             | Some (File c) \<Rightarrow> Inl NotADirectoryError
             | Some (Dir ps) \<Rightarrow>
                 (case (s, lookup t dst) of
                    (File c, Some (Dir es)) \<Rightarrow> Inl IsADirectoryError
                  | (Dir ds, Some (File c)) \<Rightarrow> Inl NotADirectoryError
                  | (Dir ds, Some (Dir (e # es))) \<Rightarrow> Inl OSError
                  | _ \<Rightarrow> Inr (alter dst (Some s) (alter src None t)))))"

text \<open>
  \<^verbatim>\<open>shutil.move(src, dst)\<close>. When \<open>dst\<close> is a directory the source is moved into it
  under its own name, unless that name is taken there. Otherwise the source is renamed
  to \<open>dst\<close>, which replaces a regular file at \<open>dst\<close>. When the rename fails, a
  directory is copied and then removed (\<open>copytree_rmtree\<close>; \<^verbatim>\<open>copytree\<close> creates the
  missing parents of its target and refuses a target that exists); a regular file
  would be copied, and the copy fails for the reason the rename failed.
\<close>

definition copytree_rmtree :: "path \<Rightarrow> path \<Rightarrow> node \<Rightarrow> error + node" where
  "copytree_rmtree src dst t =
     (case lookup t src of
        None \<Rightarrow> Inl (errno t src)
      | Some s \<Rightarrow>
          if exists t dst then Inl FileExistsError
          else (case mkdir_parents (butlast dst) t of
                  Inl e \<Rightarrow> Inl e
                | Inr t1 \<Rightarrow> Inr (alter src None (alter dst (Some s) t1))))"

definition shutil_move :: "path \<Rightarrow> path \<Rightarrow> node \<Rightarrow> error + node" where
  "shutil_move src dst t =
     (if is_dir t dst \<and> src = dst then os_rename src dst t
      else
        let real_dst = (if is_dir t dst then dst @ [last src] else dst)
        in if is_dir t dst \<and> exists t real_dst then Inl ShutilError
           else
             (case os_rename src real_dst t of
                Inr t' \<Rightarrow> Inr t'
              | Inl e \<Rightarrow>
                  if is_dir t src then
                    (if prefix src dst then Inl ShutilError
                     else copytree_rmtree src real_dst t)
                  else Inl e))"

text \<open>
  Listings. \<open>iterdir\<close> gives the entries of one directory. \<open>rglob_star\<close> is
  \<^verbatim>\<open>rglob("*")\<close>: every entry below the base directory, files and directories, the
  entries of a directory before those of its subdirectories. \<open>rglob_txt\<close> is
  \<^verbatim>\<open>rglob("*.txt")\<close>: the entries whose name ends in \<^verbatim>\<open>.txt\<close>.
\<close>

definition iterdir :: "node \<Rightarrow> path \<Rightarrow> path list" where
  "iterdir t p = (case lookup t p of Some (Dir es) \<Rightarrow> map (\<lambda>(n, c). p @ [n]) es | _ \<Rightarrow> [])"

fun rglob_from :: "path \<Rightarrow> node \<Rightarrow> path list" where
  "rglob_from pre (File c) = []"
| "rglob_from pre (Dir es) =
     map (\<lambda>(n, c). pre @ [n]) es @ concat (map (\<lambda>(n, c). rglob_from (pre @ [n]) c) es)"

definition rglob_star :: "node \<Rightarrow> path list" where
  "rglob_star t = rglob_from [] t"

definition rglob_txt :: "node \<Rightarrow> path list" where
  "rglob_txt t = filter (\<lambda>p. endswith (last p) ''.txt'') (rglob_from [] t)"

subsection \<open>Program state, console output and exceptions\<close>

text \<open>One constructor of \<open>msg\<close> for each \<^verbatim>\<open>print\<close> of the class.\<close>

datatype msg =
    Flattening
  | ErrorMoving path path error
  | Splitting
  | FailedToMove path path error
  | UpdatingLabels
  | FailedToUpdate path error
  | RemovingUnwanted
  | Removed path
  | ErrorRemoving path error
  | RemovedEmptyDir path
  | FailedToRemove path error
  | Created path
  | FailedToCreateYaml error

record world =
  fs :: node
  out :: "msg list"

definition print :: "msg \<Rightarrow> world \<Rightarrow> world" where
  "print m w = w\<lparr>out := out w @ [m]\<rparr>"

datatype outcome = Returned world | Raised error world

text \<open>
  A \<^verbatim>\<open>for\<close> loop, \<^verbatim>\<open>Pool.map\<close> and \<^verbatim>\<open>Pool.starmap\<close>: the body runs on each
  argument in turn; an exception that leaves the body ends the loop and is raised to
  the caller.
\<close>

fun for_each :: "('a \<Rightarrow> world \<Rightarrow> outcome) \<Rightarrow> 'a list \<Rightarrow> world \<Rightarrow> outcome" where
  "for_each f [] w = Returned w"
| "for_each f (a # as) w =
     (case f a w of Raised e w' \<Rightarrow> Raised e w' | Returned w' \<Rightarrow> for_each f as w')"

subsection \<open>Flattening\<close>

text \<open>
  \<^verbatim>\<open>_move_file_safely\<close>: the whole body is inside \<^verbatim>\<open>try\<close>, and
  \<^verbatim>\<open>except Exception\<close> prints. The name of \<open>dst_path\<close> is the name of \<open>src\<close>, so
  the test on \<^verbatim>\<open>dst_path.suffix\<close> reads the extension of the incoming file.
\<close>

definition move_file_safely :: "path \<Rightarrow> path \<Rightarrow> world \<Rightarrow> outcome" where
  "move_file_safely src dst_dir w =
     (let dst_path = dst_dir @ [last src]
      in case (if exists (fs w) dst_path \<and> py_suffix (last dst_path) = ''.jpg''
               then unlink dst_path (fs w) else Inr (fs w)) of
           Inl e \<Rightarrow> Returned (print (ErrorMoving src dst_dir e) w)
         | Inr t \<Rightarrow>
             (case shutil_move src dst_path t of
                Inl e \<Rightarrow> Returned (print (ErrorMoving src dst_dir e) (w\<lparr>fs := t\<rparr>))
              | Inr t' \<Rightarrow> Returned (w\<lparr>fs := t'\<rparr>)))"

definition flatten_files :: "node \<Rightarrow> path list" where
  "flatten_files t = filter (is_file t) (rglob_star t)"

definition flatten_all_files :: "world \<Rightarrow> outcome" where
  "flatten_all_files w =
     (let w1 = print Flattening w
      in for_each (\<lambda>f. move_file_safely f []) (flatten_files (fs w1)) w1)"

subsection \<open>Splitting\<close>

text \<open>
  \<^verbatim>\<open>_create_split_dirs\<close> has no \<^verbatim>\<open>try\<close>: a failing \<^verbatim>\<open>mkdir\<close> leaves the method,
  with the directories made so far in place.
\<close>

fun create_split_dirs_loop :: "path list \<Rightarrow> world \<Rightarrow> outcome" where
  "create_split_dirs_loop [] w = Returned w"
| "create_split_dirs_loop (d # ds) w =
     (case mkdir_parents d (fs w) of
        Inl e \<Rightarrow> Raised e w
      | Inr t \<Rightarrow> create_split_dirs_loop ds (w\<lparr>fs := t\<rparr>))"

definition create_split_dirs :: "world \<Rightarrow> outcome" where
  "create_split_dirs w =
     create_split_dirs_loop
       (map (\<lambda>(category, split). [category, split])
          (List.product [''images'', ''labels''] [''train'', ''val''])) w"

text \<open>
  \<^verbatim>\<open>_assign_to_split_folder\<close>. The value of \<^verbatim>\<open>random()\<close> drawn in the task of a
  file is \<open>random file_path\<close>: the draws are a parameter, one per file, and the
  theorems hold for every choice of them.
\<close>

definition assign_to_split_folder :: "path \<Rightarrow> real \<Rightarrow> (path \<Rightarrow> real) \<Rightarrow> world \<Rightarrow> outcome" where
  "assign_to_split_folder file_path train_ratio random w =
     (let category = (if py_suffix (last file_path) \<in> {''.jpg'', ''.png''} then ''images'' else ''labels'');
          split = (if random file_path < train_ratio then ''train'' else ''val'');
          dest = [category, split, last file_path]
      in case shutil_move file_path dest (fs w) of
           Inl e \<Rightarrow> Returned (print (FailedToMove file_path dest e) w)
         | Inr t \<Rightarrow> Returned (w\<lparr>fs := t\<rparr>))"

definition split_files :: "node \<Rightarrow> path list" where
  "split_files t =
     filter (\<lambda>f. py_suffix (last f) \<in> {''.jpg'', ''.png'', ''.txt''}) (iterdir t [])"

definition split_dataset :: "real \<Rightarrow> (path \<Rightarrow> real) \<Rightarrow> world \<Rightarrow> outcome" where
  "split_dataset train_ratio random w =
     (case create_split_dirs (print Splitting w) of
        Raised e w' \<Rightarrow> Raised e w'
      | Returned w1 \<Rightarrow>
          for_each (\<lambda>f. assign_to_split_folder f train_ratio random) (split_files (fs w1)) w1)"

subsection \<open>Label cleaning\<close>

definition reset_label_classes :: "path \<Rightarrow> world \<Rightarrow> outcome" where
  "reset_label_classes file_path w =
     (case read_text file_path (fs w) of
        Inl e \<Rightarrow> Returned (print (FailedToUpdate file_path e) w)
      | Inr content \<Rightarrow>
          (case write_text file_path (reset_label_text content) (fs w) of
             Inl e \<Rightarrow> Returned (print (FailedToUpdate file_path e) w)
           | Inr t \<Rightarrow> Returned (w\<lparr>fs := t\<rparr>)))"

definition update_all_labels :: "world \<Rightarrow> outcome" where
  "update_all_labels w =
     (let w1 = print UpdatingLabels w
      in for_each reset_label_classes (rglob_txt (fs w1)) w1)"

subsection \<open>Cleaning\<close>

text \<open>
  The body of the loop of \<^verbatim>\<open>remove_unwanted_files\<close>; only the \<^verbatim>\<open>unlink\<close> and the
  \<^verbatim>\<open>print\<close> after it are inside \<^verbatim>\<open>try\<close>. The generator of \<^verbatim>\<open>rglob\<close> is read as
  the list of the entries at the start: the loop removes regular files only, which
  takes no directory away from the traversal.
\<close>

definition remove_unwanted_step :: "path \<Rightarrow> world \<Rightarrow> outcome" where
  "remove_unwanted_step f w =
     (if is_file (fs w) f \<and> lower (py_suffix (last f)) \<notin> {''.jpg'', ''.png'', ''.txt''}
      then (case unlink f (fs w) of
              Inr t \<Rightarrow> Returned (print (Removed f) (w\<lparr>fs := t\<rparr>))
            | Inl e \<Rightarrow> Returned (print (ErrorRemoving f e) w))
      else Returned w)"

definition remove_unwanted_files :: "world \<Rightarrow> outcome" where
  "remove_unwanted_files w =
     (let w1 = print RemovingUnwanted w
      in for_each remove_unwanted_step (rglob_star (fs w1)) w1)"

text \<open>
  \<^verbatim>\<open>remove_empty_dirs\<close> runs its body on the triples of
  \<^verbatim>\<open>os.walk(base_dir, topdown=False)\<close>. The walk of a directory first walks each of its
  subdirectories and then yields the directory with the list of its subdirectories;
  at that point the body removes those of them that are empty by now. \<open>walk_bottom_up\<close>
  is this recursion with the body at the place of the \<^verbatim>\<open>yield\<close>. A directory found
  empty can be removed, so the \<^verbatim>\<open>except\<close> branch is never taken in this model.
\<close>

fun walk_bottom_up :: "path \<Rightarrow> node \<Rightarrow> node \<times> msg list" where
  "walk_bottom_up dirpath (File c) = (File c, [])"
| "walk_bottom_up dirpath (Dir es) =
     (let visited = map (\<lambda>(d, c). (d, walk_bottom_up (dirpath @ [d]) c)) es;
          below = concat (map (\<lambda>(d, r). snd r) visited);
          es' = map (\<lambda>(d, r). (d, fst r)) visited;
          removed = filter (\<lambda>(d, c). c = Dir []) es'
      in (Dir (filter (\<lambda>(d, c). c \<noteq> Dir []) es'),
          below @ map (\<lambda>(d, c). RemovedEmptyDir (dirpath @ [d])) removed))"

definition remove_empty_dirs :: "world \<Rightarrow> outcome" where
  "remove_empty_dirs w =
     (let (t, msgs) = walk_bottom_up [] (fs w)
      in Returned (w\<lparr>fs := t, out := out w @ msgs\<rparr>))"

text \<open>
  In the ideal file system no call of \<^verbatim>\<open>remove_empty_dirs\<close> fails. To see what the
  method does with a failure it is embedded once more, over a file system in which the
  operating system refuses some calls with \<^verbatim>\<open>PermissionError\<close>: \<open>listdir_denied\<close> holds
  of the directories that cannot be listed, \<open>rmdir_denied\<close> of the directories that
  cannot be removed.
  \<^item> \<^verbatim>\<open>os.walk\<close> is called without \<^verbatim>\<open>onerror\<close>: it skips a directory that it cannot list,
    yielding nothing for it; the directory is still in the \<^verbatim>\<open>dirs\<close> of its parent.
  \<^item> \<^verbatim>\<open>any(path.iterdir())\<close> stands before \<^verbatim>\<open>try\<close>: a refused listing is raised to the
    caller of the method.
  \<^item> \<^verbatim>\<open>path.rmdir()\<close> and the \<^verbatim>\<open>print\<close> after it are inside \<^verbatim>\<open>try\<close>: a refused removal
    is caught and printed, and the loop goes on.

  \<open>remove_listed_dirs\<close> is the loop \<^verbatim>\<open>for d in dirs\<close> at one \<^verbatim>\<open>yield\<close>, over the entries of
  the directory in listing order (a regular file is not in \<^verbatim>\<open>dirs\<close>). \<open>walk_faults\<close>
  walks one entry and \<open>walk_each\<close> the entries of a directory one after the other.
  Each gives the exception that ended it, if there was one, the entries as they are
  then, and the messages printed; after an exception nothing more is visited.
\<close>

record faults =
  listdir_denied :: "path \<Rightarrow> bool"
  rmdir_denied :: "path \<Rightarrow> bool"

fun remove_listed_dirs ::
  "faults \<Rightarrow> path \<Rightarrow> (name \<times> node) list \<Rightarrow> error option \<times> (name \<times> node) list \<times> msg list" where
  "remove_listed_dirs F dirpath [] = (None, [], [])"
| "remove_listed_dirs F dirpath ((d, File c) # es) =
     (case remove_listed_dirs F dirpath es of (r, es', ms) \<Rightarrow> (r, (d, File c) # es', ms))"
| "remove_listed_dirs F dirpath ((d, Dir sub) # es) =
     (if listdir_denied F (dirpath @ [d]) then (Some PermissionError, (d, Dir sub) # es, [])
      else if sub \<noteq> [] then
        (case remove_listed_dirs F dirpath es of (r, es', ms) \<Rightarrow> (r, (d, Dir sub) # es', ms))
      else if rmdir_denied F (dirpath @ [d]) then
        (case remove_listed_dirs F dirpath es of
           (r, es', ms) \<Rightarrow>
             (r, (d, Dir sub) # es', FailedToRemove (dirpath @ [d]) PermissionError # ms))
      else
        (case remove_listed_dirs F dirpath es of
           (r, es', ms) \<Rightarrow> (r, es', RemovedEmptyDir (dirpath @ [d]) # ms)))"

fun walk_faults :: "faults \<Rightarrow> path \<Rightarrow> node \<Rightarrow> error option \<times> node \<times> msg list"
  and walk_each ::
    "faults \<Rightarrow> path \<Rightarrow> (name \<times> node) list \<Rightarrow> error option \<times> (name \<times> node) list \<times> msg list" where
  "walk_faults F dirpath (File c) = (None, File c, [])"
| "walk_faults F dirpath (Dir es) =
     (if listdir_denied F dirpath then (None, Dir es, [])
      else case walk_each F dirpath es of
             (Some e, es', below) \<Rightarrow> (Some e, Dir es', below)
           | (None, es', below) \<Rightarrow>
               (case remove_listed_dirs F dirpath es' of
                  (r, es'', ms) \<Rightarrow> (r, Dir es'', below @ ms)))"
| "walk_each F dirpath [] = (None, [], [])"
| "walk_each F dirpath ((d, c) # es) =
     (case walk_faults F (dirpath @ [d]) c of
        (Some e, c', below) \<Rightarrow> (Some e, (d, c') # es, below)
      | (None, c', below) \<Rightarrow>
          (case walk_each F dirpath es of
             (r, es', ms) \<Rightarrow> (r, (d, c') # es', below @ ms)))"

definition remove_empty_dirs_faults :: "faults \<Rightarrow> world \<Rightarrow> outcome" where
  "remove_empty_dirs_faults F w =
     (case walk_faults F [] (fs w) of
        (None, t, ms) \<Rightarrow> Returned (w\<lparr>fs := t, out := out w @ ms\<rparr>)
      | (Some e, t, ms) \<Rightarrow> Raised e (w\<lparr>fs := t, out := out w @ ms\<rparr>))"

text \<open>Refusals at one path, refusals nowhere, and the file system that refuses nothing.\<close>

definition denied_at :: "path \<Rightarrow> path \<Rightarrow> bool" where
  "denied_at p q \<longleftrightarrow> q = p"

definition denied_nowhere :: "path \<Rightarrow> bool" where
  "denied_nowhere q \<longleftrightarrow> False"

definition no_faults :: faults where
  "no_faults = \<lparr>listdir_denied = denied_nowhere, rmdir_denied = denied_nowhere\<rparr>"

subsection \<open>The manifest\<close>

text \<open>
  The dictionary \<^verbatim>\<open>data\<close> is the list of its items in insertion order, which
  \<^verbatim>\<open>safe_dump(..., sort_keys=False)\<close> keeps. The serialiser belongs to a library and
  is a parameter: \<open>safe_dump data\<close> is the text it writes for \<open>data\<close>. \<open>base_dir\<close> is
  the absolute path of the base directory, and \<open>str_path\<close> its string.
\<close>

datatype yaml = YStr string | YInt int | YList "string list"

definition str_path :: "path \<Rightarrow> string" where
  "str_path p = (if p = [] then ''/'' else concat (map (\<lambda>c. ''/'' @ c) p))"

definition create_yaml ::
  "path \<Rightarrow> ((string \<times> yaml) list \<Rightarrow> pystr) \<Rightarrow> string list option \<Rightarrow> world \<Rightarrow> outcome" where
  "create_yaml base_dir safe_dump class_names_arg w =
     (let class_names = (case class_names_arg of None \<Rightarrow> [] | Some cs \<Rightarrow> cs);
          data = [(''train'', YStr (str_path (base_dir @ [''images'', ''train'']))),
                  (''val'', YStr (str_path (base_dir @ [''images'', ''val'']))),
                  (''nc'', YInt (int (length class_names))),
                  (''names'', YList class_names)];
          yaml_path = [''dataset.yaml'']
      in case write_text yaml_path (safe_dump data) (fs w) of
           Inr t \<Rightarrow> Returned (print (Created yaml_path) (w\<lparr>fs := t\<rparr>))
         | Inl e \<Rightarrow> Returned (print (FailedToCreateYaml e) w))"

subsection \<open>Notions used in the proofs\<close>

text \<open>
  A token is a non-empty string without white space; \<open>render\<close> is the line written
  for a list of tokens; \<open>read_tokens\<close> are the token lists of the non-blank lines of
  a content, as the loop reads them.
\<close>

definition token :: "pystr \<Rightarrow> bool" where
  "token t \<longleftrightarrow> t \<noteq> [] \<and> (\<forall>c \<in> set t. \<not> isspace c)"

definition render :: "pystr list \<Rightarrow> pystr" where
  "render qs = str_join [SP] qs @ [LF]"

definition token_line :: "pystr list \<Rightarrow> bool" where
  "token_line qs \<longleftrightarrow> qs \<noteq> [] \<and> (\<forall>p \<in> set qs. token p)"

definition read_tokens :: "pystr \<Rightarrow> pystr list list" where
  "read_tokens content = filter (\<lambda>ps. ps \<noteq> []) (map (\<lambda>l. str_split (str_strip l)) (file_readlines content))"

text \<open>
  For the splitter: the four destination directories are there; the category, the
  split and the destination of a name as \<^verbatim>\<open>_assign_to_split_folder\<close> computes them;
  a name other than the two category directories; and when the source can take the
  destination (nothing is there, or a regular file replaces a regular file).
\<close>

definition split_ready :: "node \<Rightarrow> bool" where
  "split_ready t \<longleftrightarrow>
     is_dir t [''images'', ''train''] \<and> is_dir t [''images'', ''val''] \<and>
     is_dir t [''labels'', ''train''] \<and> is_dir t [''labels'', ''val'']"

definition category_of :: "name \<Rightarrow> name" where
  "category_of n = (if py_suffix n \<in> {''.jpg'', ''.png''} then ''images'' else ''labels'')"

definition split_of :: "real \<Rightarrow> (path \<Rightarrow> real) \<Rightarrow> name \<Rightarrow> name" where
  "split_of r rnd n = (if rnd [n] < r then ''train'' else ''val'')"

definition dest_of :: "real \<Rightarrow> (path \<Rightarrow> real) \<Rightarrow> name \<Rightarrow> path" where
  "dest_of r rnd n = [category_of n, split_of r rnd n, n]"

definition plain_name :: "name \<Rightarrow> bool" where
  "plain_name n \<longleftrightarrow> n \<noteq> ''images'' \<and> n \<noteq> ''labels''"

definition movable :: "node \<Rightarrow> node option \<Rightarrow> bool" where
  "movable nd d \<longleftrightarrow> d = None \<or> (\<exists>c c'. nd = File c \<and> d = Some (File c'))"

definition names_only :: "path list \<Rightarrow> bool" where
  "names_only fl \<longleftrightarrow> (\<forall>f \<in> set fl. \<exists>m. f = [m] \<and> plain_name m)"

text \<open>A choice of draws that gives every task the same value.\<close>

definition always :: "real \<Rightarrow> path \<Rightarrow> real" where
  "always x f = x"

text \<open>The test of \<^verbatim>\<open>remove_unwanted_files\<close> on the extension of a path.\<close>

definition unwanted :: "path \<Rightarrow> bool" where
  "unwanted f \<longleftrightarrow> lower (py_suffix (last f)) \<notin> {''.jpg'', ''.png'', ''.txt''}"

text \<open>No regular file is where the splitter needs a directory.\<close>

definition split_dirs_free :: "node \<Rightarrow> bool" where
  "split_dirs_free t \<longleftrightarrow>
     \<not> is_file t [''images''] \<and> \<not> is_file t [''labels''] \<and>
     \<not> is_file t [''images'', ''train''] \<and> \<not> is_file t [''images'', ''val''] \<and>
     \<not> is_file t [''labels'', ''train''] \<and> \<not> is_file t [''labels'', ''val'']"

section \<open>Label text\<close>

lemma isspace_consts [simp]: "isspace LF" "isspace CR" "isspace SP" "\<not> isspace 48"
  by (simp_all add: isspace_def LF_def CR_def SP_def)

lemma split_tokens: "t \<in> set (str_split s) \<Longrightarrow> token t"
proof (induction s rule: str_split.induct)
  case 1
  then show ?case by simp
next
  case (2 c cs)
  show ?case
  proof (cases "isspace c")
    case True
    with "2.prems" have "t \<in> set (str_split cs)" by simp
    with True "2.IH"(1) show ?thesis by blast
  next
    case False
    let ?tok = "takeWhile (\<lambda>x. \<not> isspace x) (c # cs)"
    from False "2.prems"
    have "t = ?tok \<or> t \<in> set (str_split (dropWhile (\<lambda>x. \<not> isspace x) cs))"
      by (simp del: takeWhile.simps)
    moreover have "token ?tok"
      unfolding token_def using False by (auto dest: set_takeWhileD)
    ultimately show ?thesis using False "2.IH"(2) by blast
  qed
qed

lemma split_token_append:
  assumes "token p" "isspace s"
  shows "str_split (p @ s # r) = p # str_split r"
proof -
  from assms obtain c cs where p: "p = c # cs" by (cases p) (auto simp: token_def)
  have nc: "\<not> isspace c" and ncs: "\<And>x. x \<in> set cs \<Longrightarrow> \<not> isspace x"
    using assms p by (simp_all add: token_def)
  have tw: "takeWhile (\<lambda>x. \<not> isspace x) (cs @ s # r) = cs"
    using ncs assms(2) by (simp add: takeWhile_append2)
  have dw: "dropWhile (\<lambda>x. \<not> isspace x) (cs @ s # r) = s # r"
    using ncs assms(2) by (simp add: dropWhile_append2)
  have "str_split (p @ s # r) = (c # cs) # str_split (s # r)"
    unfolding p using nc tw dw by simp
  also have "str_split (s # r) = str_split r" using assms(2) by simp
  finally show ?thesis by (simp add: p)
qed


lemma split_single_token:
  assumes "token p"
  shows "str_split p = [p]"
proof -
  from assms obtain c cs where p: "p = c # cs" by (cases p) (auto simp: token_def)
  have nc: "\<not> isspace c" and ncs: "\<And>x. x \<in> set cs \<Longrightarrow> \<not> isspace x"
    using assms p by (simp_all add: token_def)
  have "takeWhile (\<lambda>x. \<not> isspace x) cs = cs" "dropWhile (\<lambda>x. \<not> isspace x) cs = []"
    using ncs by simp_all
  then show ?thesis unfolding p using nc by (simp del: dropWhile_eq_Nil_conv)
qed

lemma split_join:
  "\<forall>p \<in> set ps. token p \<Longrightarrow> str_split (str_join [SP] ps) = ps"
proof (induction "[SP]" ps rule: str_join.induct)
  case 1
  show ?case by simp
next
  case (2 p)
  then show ?case by (simp add: split_single_token)
next
  case (3 p q ps)
  have "str_split (p @ SP # str_join [SP] (q # ps)) = p # str_split (str_join [SP] (q # ps))"
    using 3(2) by (intro split_token_append) simp_all
  then show ?case using 3 by simp
qed

lemma join_ends:
  "ps \<noteq> [] \<Longrightarrow> \<forall>p \<in> set ps. token p \<Longrightarrow>
     str_join [SP] ps \<noteq> [] \<and> \<not> isspace (hd (str_join [SP] ps)) \<and> \<not> isspace (last (str_join [SP] ps))"
proof (induction "[SP]" ps rule: str_join.induct)
  case 1
  then show ?case by simp
next
  case (2 p)
  then show ?case by (cases p rule: rev_cases) (auto simp: token_def hd_append)
next
  case (3 p q ps)
  from 3(3) have "token p" by simp
  then have "p \<noteq> []" "\<not> isspace (hd p)" by (cases p; simp add: token_def)+
  moreover from 3 have "str_join [SP] (q # ps) \<noteq> []" "\<not> isspace (last (str_join [SP] (q # ps)))"
    by simp_all
  ultimately show ?case by (simp add: hd_append)
qed

lemma strip_line:
  assumes "s \<noteq> []" "\<not> isspace (hd s)" "\<not> isspace (last s)"
  shows "str_strip (s @ [LF]) = s"
proof -
  from assms obtain c cs where s: "s = c # cs" by (cases s) auto
  have a: "dropWhile isspace (s @ [LF]) = s @ [LF]" using assms(2) by (simp add: s)
  from assms obtain d ds where r: "rev s = d # ds" by (cases "rev s") auto
  then have "d = last s" using assms(1) by (metis hd_rev list.sel(1))
  then have b: "dropWhile isspace (rev s) = rev s" using assms(3) unfolding r by simp
  show ?thesis unfolding str_strip_def a using b by simp
qed

lemma join_no_space_outside:
  "\<forall>p \<in> set ps. token p \<Longrightarrow> c \<in> set (str_join [SP] ps) \<Longrightarrow> isspace c \<Longrightarrow> c = SP"
  by (induction "[SP]" ps rule: str_join.induct) (auto simp: token_def)

lemma readlines_line:
  "LF \<notin> set l \<Longrightarrow> readlines (l @ LF # rest) = (l @ [LF]) # readlines rest"
  by (induction l) auto

lemma readlines_concat:
  "\<forall>l \<in> set ls. LF \<notin> set l \<Longrightarrow>
     readlines (concat (map (\<lambda>l. l @ [LF]) ls)) = map (\<lambda>l. l @ [LF]) ls"
  by (induction ls) (simp_all add: readlines_line)

lemma universal_newlines_no_CR:
  "CR \<notin> set s \<Longrightarrow> universal_newlines s = s"
  by (induction s rule: universal_newlines.induct) auto


lemma render_eq: "render = (\<lambda>qs. str_join [SP] qs @ [LF])"
  by (rule ext) (simp add: render_def)

lemma updated_lines_eq:
  "updated_lines ls =
     map (\<lambda>ps. render (ps[0 := [48]])) (filter (\<lambda>ps. ps \<noteq> []) (map (\<lambda>l. str_split (str_strip l)) ls))"
  by (induction ls) (simp_all add: Let_def render_def)

lemma token_line_reset:
  assumes "token_line ps"
  shows "ps[0 := [48]] = [48] # tl ps" "token_line ([48] # tl ps)"
proof -
  from assms obtain p ps' where ps: "ps = p # ps'" by (cases ps) (auto simp: token_line_def)
  show "ps[0 := [48]] = [48] # tl ps" by (simp add: ps)
  show "token_line ([48] # tl ps)"
    using assms by (auto simp: ps token_line_def token_def)
qed

lemma render_free:
  assumes "token_line qs"
  shows "LF \<notin> set (str_join [SP] qs)" "CR \<notin> set (str_join [SP] qs)"
proof -
  have all: "\<forall>p \<in> set qs. token p" using assms by (simp add: token_line_def)
  show "LF \<notin> set (str_join [SP] qs)"
  proof
    assume "LF \<in> set (str_join [SP] qs)"
    from join_no_space_outside[OF all this] have "LF = SP" by simp
    then show False by (simp add: LF_def SP_def)
  qed
  show "CR \<notin> set (str_join [SP] qs)"
  proof
    assume "CR \<in> set (str_join [SP] qs)"
    from join_no_space_outside[OF all this] have "CR = SP" by simp
    then show False by (simp add: CR_def SP_def)
  qed
qed

lemma tokens_render:
  assumes "token_line qs"
  shows "str_split (str_strip (render qs)) = qs"
proof -
  have all: "\<forall>p \<in> set qs. token p" and ne: "qs \<noteq> []"
    using assms by (simp_all add: token_line_def)
  from join_ends[OF ne all] have "str_strip (str_join [SP] qs @ [LF]) = str_join [SP] qs"
    by (intro strip_line) simp_all
  then show ?thesis by (simp add: render_def split_join[OF all])
qed

lemma map_tokens_render:
  "\<forall>qs \<in> set Q. token_line qs \<Longrightarrow> map (\<lambda>l. str_split (str_strip l)) (map render Q) = Q"
  by (induction Q) (simp_all add: tokens_render)

lemma file_readlines_render:
  assumes "\<forall>qs \<in> set Q. token_line qs"
  shows "file_readlines (concat (map render Q)) = map render Q"
proof -
  have "CR \<notin> set (concat (map render Q))"
    using assms render_free(2) by (auto simp: render_def CR_def LF_def)
  then have "file_readlines (concat (map render Q)) = readlines (concat (map render Q))"
    by (simp add: file_readlines_def universal_newlines_no_CR)
  also have "concat (map render Q) = concat (map (\<lambda>l. l @ [LF]) (map (str_join [SP]) Q))"
    by (simp add: render_eq comp_def)
  also have "readlines \<dots> = map (\<lambda>l. l @ [LF]) (map (str_join [SP]) Q)"
    using assms render_free(1) by (intro readlines_concat) auto
  finally show ?thesis by (simp add: render_eq comp_def)
qed

lemma updated_lines_render:
  assumes "\<forall>qs \<in> set Q. token_line qs"
  shows "updated_lines (map render Q) = map (\<lambda>qs. render ([48] # tl qs)) Q"
  using assms
proof (induction Q)
  case Nil
  show ?case by simp
next
  case (Cons qs Q)
  then have tl: "token_line qs" by simp
  then have "qs \<noteq> []" by (simp add: token_line_def)
  have "updated_lines (render qs # map render Q) =
          render (qs[0 := [48]]) # updated_lines (map render Q)"
    using \<open>qs \<noteq> []\<close> by (simp add: tokens_render[OF tl] render_def[of "qs[0 := [48]]"])
  with Cons tl show ?case
    by (simp add: token_line_reset(1))
qed

lemma read_tokens_token_line: "ps \<in> set (read_tokens content) \<Longrightarrow> token_line ps"
  by (auto simp: read_tokens_def token_line_def dest: split_tokens)

lemma reset_label_text_eq:
  "reset_label_text content = concat (map render (map (\<lambda>ps. [48] # tl ps) (read_tokens content)))"
proof -
  have "map (\<lambda>ps. render (ps[0 := [48]])) (read_tokens content)
        = map (\<lambda>ps. render ([48] # tl ps)) (read_tokens content)"
    using read_tokens_token_line token_line_reset(1) by (intro map_cong) auto
  then have "updated_lines (file_readlines content)
             = map render (map (\<lambda>ps. [48] # tl ps) (read_tokens content))"
    by (simp only: updated_lines_eq read_tokens_def[symmetric] map_map comp_def)
  then show ?thesis by (simp only: reset_label_text_def)
qed

lemma reset_tokens_token_line:
  "qs \<in> set (map (\<lambda>ps. [48] # tl ps) (read_tokens content)) \<Longrightarrow> token_line qs"
  using read_tokens_token_line token_line_reset(2) by auto

lemma file_readlines_reset:
  "file_readlines (reset_label_text content) =
     map render (map (\<lambda>ps. [48] # tl ps) (read_tokens content))"
  unfolding reset_label_text_eq
  by (rule file_readlines_render) (use reset_tokens_token_line in blast)

lemma reset_label_text_lines:
  "map (\<lambda>l. str_split (str_strip l)) (file_readlines (reset_label_text content)) =
     map (\<lambda>ps. [48] # tl ps)
       (filter (\<lambda>ps. ps \<noteq> []) (map (\<lambda>l. str_split (str_strip l)) (file_readlines content)))
   \<and> (\<forall>l \<in> set (file_readlines (reset_label_text content)).
         str_split (str_strip l) \<noteq> [] \<and> hd (str_split (str_strip l)) = [48] \<and>
         l = str_join [SP] (str_split (str_strip l)) @ [LF])"
proof (intro conjI ballI)
  let ?Q = "map (\<lambda>ps. [48] # tl ps) (read_tokens content)"
  have tok: "\<forall>qs \<in> set ?Q. token_line qs" using reset_tokens_token_line by blast
  have "map (\<lambda>l. str_split (str_strip l)) (map render ?Q) = ?Q"
    using tok by (rule map_tokens_render)
  then show "map (\<lambda>l. str_split (str_strip l)) (file_readlines (reset_label_text content)) =
     map (\<lambda>ps. [48] # tl ps)
       (filter (\<lambda>ps. ps \<noteq> []) (map (\<lambda>l. str_split (str_strip l)) (file_readlines content)))"
    by (simp add: file_readlines_reset read_tokens_def)
  fix l assume "l \<in> set (file_readlines (reset_label_text content))"
  then obtain ps where ps: "ps \<in> set (read_tokens content)" and l: "l = render ([48] # tl ps)"
    unfolding file_readlines_reset by auto
  have "token_line ([48] # tl ps)" using ps reset_tokens_token_line by auto
  then have "str_split (str_strip l) = [48] # tl ps" unfolding l by (rule tokens_render)
  then show "str_split (str_strip l) \<noteq> []" "hd (str_split (str_strip l)) = [48]"
    "l = str_join [SP] (str_split (str_strip l)) @ [LF]"
    by (simp_all add: l render_def)
qed

lemma reset_label_text_idem:
  "reset_label_text (reset_label_text content) = reset_label_text content"
proof -
  let ?Q = "map (\<lambda>ps. [48] # tl ps) (read_tokens content)"
  have tok: "\<forall>qs \<in> set ?Q. token_line qs" using reset_tokens_token_line by blast
  have "reset_label_text (reset_label_text content) = concat (updated_lines (map render ?Q))"
    by (simp only: reset_label_text_def[of "reset_label_text content"] file_readlines_reset)
  also have "updated_lines (map render ?Q) = map (\<lambda>qs. render ([48] # tl qs)) ?Q"
    using tok by (rule updated_lines_render)
  also have "\<dots> = map render ?Q" by (simp add: comp_def)
  finally show ?thesis by (simp add: reset_label_text_eq)
qed

section \<open>The directory tree\<close>

lemma lookup_append:
  "lookup t (p @ q) = (case lookup t p of None \<Rightarrow> None | Some n \<Rightarrow> lookup n q)"
  by (induction t p rule: lookup.induct) (auto split: option.splits)

lemma lookup_below_file:
  "lookup t p = Some (File c) \<Longrightarrow> q \<noteq> [] \<Longrightarrow> lookup t (p @ q) = None"
  by (cases q) (simp_all add: lookup_append)

lemma lookup_Cons_Some:
  "lookup t (x # xs) = Some n \<longleftrightarrow>
     (\<exists>es c. t = Dir es \<and> map_of es x = Some c \<and> lookup c xs = Some n)"
  by (cases t) (auto split: option.splits)

lemma lookup_alter_same:
  "p \<noteq> [] \<Longrightarrow> is_dir t (butlast p) \<Longrightarrow> lookup (alter p v t) p = v"
proof (induction p v t rule: alter.induct)
  case (1 v t)
  then show ?case by simp
next
  case (2 x xs v c)
  then show ?case by (cases xs) (simp_all add: is_dir_def)
next
  case (3 x v es)
  then show ?case
    by (cases v) (simp_all add: update_conv' delete_conv')
next
  case (4 x y ys v es)
  from "4.prems"(2) obtain c where c: "map_of es x = Some c" and d: "is_dir c (butlast (y # ys))"
    by (auto simp: is_dir_def split: option.splits)
  from "4.IH"[OF c _ d] have "lookup (alter (y # ys) v c) (y # ys) = v" by simp
  then show ?case using c by (simp add: update_conv')
qed

lemma lookup_alter_other:
  "\<not> prefix p q \<Longrightarrow> \<not> prefix q p \<Longrightarrow> lookup (alter p v t) q = lookup t q"
proof (induction p v t arbitrary: q rule: alter.induct)
  case (1 v t)
  then show ?case by simp
next
  case (2 x xs v c)
  then show ?case by simp
next
  case (3 x v es)
  then obtain z zs where q: "q = z # zs" by (cases q) auto
  with 3 have "z \<noteq> x" by auto
  then show ?case
    by (cases v) (simp_all add: q update_conv' delete_conv')
next
  case (4 x y ys v es)
  then obtain z zs where q: "q = z # zs" by (cases q) auto
  show ?case
  proof (cases "z = x")
    case False
    then show ?thesis by (simp add: q update_conv' split: option.splits)
  next
    case True
    show ?thesis
    proof (cases "map_of es x")
      case None
      then show ?thesis by simp
    next
      case (Some c)
      from "4.prems" True have "\<not> prefix (y # ys) zs" "\<not> prefix zs (y # ys)"
        by (simp_all add: q)
      from "4.IH"[OF Some this] show ?thesis
        using Some True by (simp add: q update_conv')
    qed
  qed
qed

lemma is_dir_alter:
  "\<not> prefix p q \<Longrightarrow> is_dir (alter p v t) q = is_dir t q"
proof (induction p v t arbitrary: q rule: alter.induct)
  case (1 v t)
  then show ?case by simp
next
  case (2 x xs v c)
  then show ?case by simp
next
  case (3 x v es)
  show ?case
  proof (cases q)
    case Nil
    then show ?thesis by (simp add: is_dir_def)
  next
    case (Cons z zs)
    with 3 have "z \<noteq> x" by auto
    then show ?thesis
      by (cases v) (simp_all add: Cons is_dir_def update_conv' delete_conv')
  qed
next
  case (4 x y ys v es)
  show ?case
  proof (cases q)
    case Nil
    then show ?thesis by (simp add: is_dir_def split: option.splits)
  next
    case (Cons z zs)
    show ?thesis
    proof (cases "map_of es x")
      case None
      then show ?thesis by simp
    next
      case (Some c)
      show ?thesis
      proof (cases "z = x")
        case False
        then show ?thesis using Some by (simp add: Cons is_dir_def update_conv')
      next
        case True
        with "4.prems" have "\<not> prefix (y # ys) zs" by (simp add: Cons)
        from "4.IH"[OF Some this] show ?thesis
          using Some True by (simp add: Cons is_dir_def update_conv')
      qed
    qed
  qed
qed

lemma is_file_alter:
  "\<not> prefix p q \<Longrightarrow> is_file (alter p v t) q = is_file t q"
proof (induction p v t arbitrary: q rule: alter.induct)
  case (1 v t)
  then show ?case by simp
next
  case (2 x xs v c)
  then show ?case by simp
next
  case (3 x v es)
  show ?case
  proof (cases q)
    case Nil
    then show ?thesis by (simp add: is_file_def)
  next
    case (Cons z zs)
    with 3 have "z \<noteq> x" by auto
    then show ?thesis
      by (cases v) (simp_all add: Cons is_file_def update_conv' delete_conv')
  qed
next
  case (4 x y ys v es)
  show ?case
  proof (cases q)
    case Nil
    then show ?thesis by (simp add: is_file_def split: option.splits)
  next
    case (Cons z zs)
    show ?thesis
    proof (cases "map_of es x")
      case None
      then show ?thesis by simp
    next
      case (Some c)
      show ?thesis
      proof (cases "z = x")
        case False
        then show ?thesis using Some by (simp add: Cons is_file_def update_conv')
      next
        case True
        with "4.prems" have "\<not> prefix (y # ys) zs" by (simp add: Cons)
        from "4.IH"[OF Some this] show ?thesis
          using Some True by (simp add: Cons is_file_def update_conv')
      qed
    qed
  qed
qed

lemma rglob_from_mem:
  "lookup t p = Some n \<Longrightarrow> p \<noteq> [] \<Longrightarrow> pre @ p \<in> set (rglob_from pre t)"
proof (induction p arbitrary: t pre)
  case Nil
  then show ?case by simp
next
  case (Cons x xs)
  from Cons.prems(1) obtain es c where t: "t = Dir es" and c: "map_of es x = Some c"
    and l: "lookup c xs = Some n"
    by (auto simp: lookup_Cons_Some)
  from c have mem: "(x, c) \<in> set es" by (rule map_of_SomeD)
  show ?case
  proof (cases xs)
    case Nil
    with mem show ?thesis by (force simp: t)
  next
    case (Cons y ys)
    with Cons.IH[OF l, of "pre @ [x]"] have "pre @ x # xs \<in> set (rglob_from (pre @ [x]) c)"
      by simp
    with mem show ?thesis by (force simp: t)
  qed
qed

lemma rglob_from_shape:
  "p \<in> set (rglob_from pre t) \<Longrightarrow> \<exists>q. p = pre @ q \<and> q \<noteq> []"
proof (induction pre t arbitrary: p rule: rglob_from.induct)
  case (1 pre c)
  then show ?case by simp
next
  case (2 pre es)
  from "2.prems" consider (here) n c where "(n, c) \<in> set es" "p = pre @ [n]"
    | (below) n c where "(n, c) \<in> set es" "p \<in> set (rglob_from (pre @ [n]) c)"
    by auto
  then show ?case
  proof cases
    case here
    then show ?thesis by simp
  next
    case below
    from "2.IH"[OF below(1) refl below(2)] show ?thesis by auto
  qed
qed

lemma for_each_returns:
  assumes "\<And>a w. \<exists>w'. f a w = Returned w'"
  shows "\<exists>w'. for_each f as w = Returned w'"
proof (induction as arbitrary: w)
  case Nil
  show ?case by simp
next
  case (Cons a as)
  from assms obtain w1 where "f a w = Returned w1" by blast
  with Cons show ?case by simp
qed

lemma lookup_parent_dir:
  "lookup t p = Some n \<Longrightarrow> p \<noteq> [] \<Longrightarrow> is_dir t (butlast p)"
proof (induction t p rule: lookup.induct)
  case (1 t)
  then show ?case by simp
next
  case (2 c x xs)
  then show ?case by simp
next
  case (3 es x xs)
  then obtain c where c: "map_of es x = Some c" and l: "lookup c xs = Some n"
    by (auto split: option.splits)
  show ?case
  proof (cases xs)
    case Nil
    then show ?thesis by (simp add: is_dir_def)
  next
    case (Cons y ys)
    with 3 c l have "is_dir c (butlast xs)" by simp
    then show ?thesis using c Cons by (simp add: is_dir_def)
  qed
qed

lemma prefix_butlast: "prefix p (butlast q) \<Longrightarrow> prefix p q"
  by (metis prefix_order.order_trans prefixeq_butlast)

lemma moved_lookups:
  assumes np: "\<not> prefix src dst" "\<not> prefix dst src"
    and dd: "dst \<noteq> []" "is_dir t (butlast dst)"
    and sd: "src \<noteq> []" "is_dir t (butlast src)"
  shows "lookup (alter dst (Some s) (alter src None t)) dst = Some s"
    and "lookup (alter dst (Some s) (alter src None t)) src = None"
    and "\<And>q. \<not> prefix src q \<Longrightarrow> \<not> prefix q src \<Longrightarrow> \<not> prefix dst q \<Longrightarrow> \<not> prefix q dst
           \<Longrightarrow> lookup (alter dst (Some s) (alter src None t)) q = lookup t q"
    and "\<And>q. \<not> prefix src q \<Longrightarrow> \<not> prefix dst q
           \<Longrightarrow> is_dir (alter dst (Some s) (alter src None t)) q = is_dir t q"
proof -
  let ?t' = "alter dst (Some s) (alter src None t)"
  have "\<not> prefix src (butlast dst)" using np(1) prefix_butlast by blast
  then have "is_dir (alter src None t) (butlast dst)" using dd(2) by (simp add: is_dir_alter)
  with dd(1) show "lookup ?t' dst = Some s" by (rule lookup_alter_same)
  have "lookup ?t' src = lookup (alter src None t) src"
    using np by (intro lookup_alter_other) auto
  also have "\<dots> = None" using sd by (rule lookup_alter_same)
  finally show "lookup ?t' src = None" .
  show "lookup ?t' q = lookup t q"
    if "\<not> prefix src q" "\<not> prefix q src" "\<not> prefix dst q" "\<not> prefix q dst" for q
    using that by (simp add: lookup_alter_other)
  show "is_dir ?t' q = is_dir t q" if "\<not> prefix src q" "\<not> prefix dst q" for q
    using that by (simp add: is_dir_alter)
qed

lemma os_rename_file:
  assumes "lookup t src = Some (File c)" "src \<noteq> dst" "dst \<noteq> []"
    and "is_dir t (butlast dst)" "\<not> is_dir t dst"
  shows "os_rename src dst t = Inr (alter dst (Some (File c)) (alter src None t))"
    and "\<not> prefix src dst" and "\<not> prefix dst src" and "src \<noteq> []"
proof -
  show ne: "src \<noteq> []"
  proof
    assume "src = []"
    with assms(1) have "t = File c" by simp
    with assms(4) show False by (cases "butlast dst") (simp_all add: is_dir_def)
  qed
  show np: "\<not> prefix src dst"
  proof
    assume "prefix src dst"
    with assms(2) have "prefix src (butlast dst)"
      by (metis assms(3) prefix_snoc snoc_eq_iff_butlast)
    then obtain r where "butlast dst = src @ r" by (auto simp: prefix_def)
    with assms(1,4) show False
      by (cases r) (auto simp: is_dir_def lookup_append)
  qed
  show "\<not> prefix dst src"
  proof
    assume "prefix dst src"
    then obtain r where r: "src = dst @ r" by (auto simp: prefix_def)
    with assms(2) have "r \<noteq> []" by auto
    with assms(1,5) r show False
      by (cases "lookup t dst"; cases r)
         (auto simp: lookup_append is_dir_def split: node.splits)
  qed
  from assms(4) obtain ps where "lookup t (butlast dst) = Some (Dir ps)"
    by (auto simp: is_dir_def split: option.splits node.splits)
  moreover from assms(5) have "lookup t dst = None \<or> (\<exists>c'. lookup t dst = Some (File c'))"
    by (auto simp: is_dir_def split: option.splits node.splits)
  ultimately show "os_rename src dst t = Inr (alter dst (Some (File c)) (alter src None t))"
    using assms(1,2,3) ne np by (auto simp: os_rename_def)
qed

lemma shutil_move_file:
  assumes "lookup t src = Some (File c)" "src \<noteq> dst" "dst \<noteq> []"
    and "is_dir t (butlast dst)" "\<not> is_dir t dst"
  shows "shutil_move src dst t = Inr (alter dst (Some (File c)) (alter src None t))"
  using os_rename_file(1)[OF assms] assms(5) by (simp add: shutil_move_def)

lemma move_file_to:
  assumes "lookup t src = Some (File c)" "src \<noteq> dst" "dst \<noteq> []"
    and "is_dir t (butlast dst)" "\<not> is_dir t dst"
  shows "\<exists>t'. shutil_move src dst t = Inr t' \<and> lookup t' dst = Some (File c) \<and> lookup t' src = None"
proof -
  note r = os_rename_file[OF assms]
  have "is_dir t (butlast src)" using assms(1) r(4) by (rule lookup_parent_dir)
  from moved_lookups(1,2)[OF r(2,3) assms(3,4) r(4) this, of "File c"]
    shutil_move_file[OF assms]
  show ?thesis by simp
qed

lemma os_rename_result:
  assumes "os_rename src dst t = Inr t'"
  shows "t' = t \<or> (\<exists>s. lookup t src = Some s \<and> t' = alter dst (Some s) (alter src None t))"
  using assms
  by (auto simp: os_rename_def split: option.splits if_splits node.splits list.splits)

lemma shutil_move_result:
  assumes "shutil_move src dst t = Inr t'" and "is_dir t (butlast dst)" and "dst \<noteq> []"
  shows "t' = t \<or>
         (\<exists>s rd. lookup t src = Some s \<and> (rd = dst \<or> rd = dst @ [last src]) \<and>
            t' = alter rd (Some s) (alter src None t))"
proof (cases "is_dir t dst \<and> src = dst")
  case True
  with assms(1) have "os_rename src dst t = Inr t'" by (simp add: shutil_move_def)
  from os_rename_result[OF this] show ?thesis by auto
next
  case False
  define rd where "rd = (if is_dir t dst then dst @ [last src] else dst)"
  have par: "is_dir t (butlast rd)" using assms(2) by (simp add: rd_def)
  from False assms(1) have nex: "\<not> (is_dir t dst \<and> exists t rd)"
    by (auto simp: shutil_move_def rd_def Let_def split: if_splits)
  show ?thesis
  proof (cases "os_rename src rd t")
    case (Inr t1)
    with False assms(1) nex have "t' = t1"
      by (auto simp: shutil_move_def rd_def Let_def split: if_splits)
    have rd: "rd = dst \<or> rd = dst @ [last src]" by (simp add: rd_def)
    from os_rename_result[OF Inr] \<open>t' = t1\<close>
    consider "t' = t" | s where "lookup t src = Some s" "t' = alter rd (Some s) (alter src None t)"
      by blast
    then show ?thesis using rd by cases blast+
  next
    case (Inl e)
    with False assms(1) nex have sd: "is_dir t src" and np: "\<not> prefix src dst"
      and ct: "copytree_rmtree src rd t = Inr t'"
      by (auto simp: shutil_move_def rd_def Let_def split: if_splits)
    from sd obtain ds where s: "lookup t src = Some (Dir ds)"
      by (auto simp: is_dir_def split: option.splits node.splits)
    from ct s have nx: "\<not> exists t rd"
      by (auto simp: copytree_rmtree_def split: if_splits)
    then have none: "lookup t rd = None" by (simp add: exists_def)
    from par obtain ps where ps: "lookup t (butlast rd) = Some (Dir ps)"
      by (auto simp: is_dir_def split: option.splits node.splits)
    have "src \<noteq> []" using np by auto
    moreover have "rd \<noteq> []" using assms(3) by (simp add: rd_def)
    moreover have "src \<noteq> rd" using s none by auto
    moreover have "\<not> prefix src rd"
    proof
      assume "prefix src rd"
      with \<open>src \<noteq> rd\<close> np show False
        by (auto simp: rd_def split: if_splits)
    qed
    ultimately have "os_rename src rd t = Inr (alter rd (Some (Dir ds)) (alter src None t))"
      using s none ps by (simp add: os_rename_def)
    with Inl show ?thesis by simp
  qed
qed

lemma shutil_move_frame:
  assumes "shutil_move src dst t = Inr t'" and "is_dir t (butlast dst)" and "dst \<noteq> []"
  shows "\<And>q. \<not> prefix src q \<Longrightarrow> \<not> prefix q src \<Longrightarrow> \<not> prefix dst q \<Longrightarrow>
              \<not> prefix q (dst @ [last src]) \<Longrightarrow> lookup t' q = lookup t q"
    and "\<And>q. \<not> prefix src q \<Longrightarrow> \<not> prefix dst q \<Longrightarrow> is_dir t' q = is_dir t q"
proof -
  from shutil_move_result[OF assms]
  consider "t' = t"
    | s rd where "rd = dst \<or> rd = dst @ [last src]" "t' = alter rd (Some s) (alter src None t)"
    by blast
  note c = this
  show "lookup t' q = lookup t q"
    if "\<not> prefix src q" "\<not> prefix q src" "\<not> prefix dst q" "\<not> prefix q (dst @ [last src])" for q
    using c
  proof cases
    case 1
    then show ?thesis by simp
  next
    case 2
    have "\<not> prefix rd q" using 2(1) that(3) by (auto dest: append_prefixD)
    moreover have "\<not> prefix q rd" using 2(1) that(4) prefix_prefix by blast
    ultimately show ?thesis using that(1,2) by (simp add: 2(2) lookup_alter_other)
  qed
  show "is_dir t' q = is_dir t q" if "\<not> prefix src q" "\<not> prefix dst q" for q
    using c
  proof cases
    case 1
    then show ?thesis by simp
  next
    case 2
    have "\<not> prefix rd q" using 2(1) that(2) by (auto dest: append_prefixD)
    then show ?thesis using that(1) by (simp add: 2(2) is_dir_alter)
  qed
qed

lemma shutil_move_missing:
  "lookup t src = None \<Longrightarrow> \<exists>e. shutil_move src dst t = Inl e"
  by (auto simp: shutil_move_def os_rename_def is_dir_def Let_def)

lemma shutil_move_fresh:
  assumes "lookup t src = Some s" "lookup t dst = None" "\<not> prefix src dst"
    and "dst \<noteq> []" "is_dir t (butlast dst)"
  shows "shutil_move src dst t = Inr (alter dst (Some s) (alter src None t))"
proof -
  have "src \<noteq> []" "src \<noteq> dst" using assms(1,2,3) by auto
  moreover from assms(5) obtain ps where "lookup t (butlast dst) = Some (Dir ps)"
    by (auto simp: is_dir_def split: option.splits node.splits)
  ultimately have "os_rename src dst t = Inr (alter dst (Some s) (alter src None t))"
    using assms(1-4) by (cases s) (simp_all add: os_rename_def)
  moreover have "\<not> is_dir t dst" using assms(2) by (simp add: is_dir_def)
  ultimately show ?thesis by (simp add: shutil_move_def)
qed

lemma file_prefix_eq:
  assumes "lookup t p = Some (File c)" "lookup t q = Some nd" "prefix p q"
  shows "q = p"
proof (rule ccontr)
  assume "q \<noteq> p"
  with assms(3) obtain r where "q = p @ r" "r \<noteq> []" by (auto simp: prefix_def)
  with lookup_below_file[OF assms(1)] assms(2) show False by simp
qed

lemma files_unrelated:
  assumes "lookup t p = Some (File c)" "lookup t q = Some (File d)" "q \<noteq> p"
  shows "\<not> prefix p q" "\<not> prefix q p"
  using file_prefix_eq[OF assms(1,2)] file_prefix_eq[OF assms(2,1)] assms(3) by auto

lemma alter_file_keeps_file:
  assumes "lookup t p = Some (File c)" "lookup t q = Some (File d)" "q \<noteq> p"
  shows "lookup (alter p v t) q = Some (File d)"
  using files_unrelated[OF assms] assms(2) by (simp add: lookup_alter_other)

lemma unlink_file:
  "lookup t f = Some (File c) \<Longrightarrow> f \<noteq> [] \<Longrightarrow> unlink f t = Inr (alter f None t)"
  by (simp add: unlink_def)

lemma alter_None_file_iff:
  assumes f: "lookup t f = Some (File c)" and ne: "f \<noteq> []"
  shows "lookup (alter f None t) q = Some (File d) \<longleftrightarrow> q \<noteq> f \<and> lookup t q = Some (File d)"
proof (cases "q = f")
  case True
  have "lookup (alter f None t) f = None"
    using ne lookup_parent_dir[OF f ne] by (rule lookup_alter_same)
  with True show ?thesis by simp
next
  case False
  show ?thesis
  proof (cases "prefix f q")
    case True
    then obtain r where q: "q = f @ r" by (auto simp: prefix_def)
    with False have r: "r \<noteq> []" by auto
    have "lookup (alter f None t) f = None"
      using ne lookup_parent_dir[OF f ne] by (rule lookup_alter_same)
    then have "lookup (alter f None t) q = None" by (simp add: q lookup_append)
    moreover have "lookup t q = None" unfolding q using f r by (rule lookup_below_file)
    ultimately show ?thesis by simp
  next
    case nf: False
    have "is_file (alter f None t) q = is_file t q" using nf by (rule is_file_alter)
    show ?thesis
    proof (cases "prefix q f")
      case True
      have "lookup t q \<noteq> Some (File d)"
      proof
        assume "lookup t q = Some (File d)"
        from file_prefix_eq[OF this f True] False show False by simp
      qed
      moreover have "lookup (alter f None t) q \<noteq> Some (File d)"
      proof
        assume "lookup (alter f None t) q = Some (File d)"
        then have "is_file (alter f None t) q" by (simp add: is_file_def)
        then have "is_file t q" using is_file_alter[OF nf] by simp
        then obtain d' where "lookup t q = Some (File d')"
          by (auto simp: is_file_def split: option.splits node.splits)
        from file_prefix_eq[OF this f True] False show False by simp
      qed
      ultimately show ?thesis by simp
    next
      case False
      with nf have "lookup (alter f None t) q = lookup t q" by (simp add: lookup_alter_other)
      with \<open>q \<noteq> f\<close> show ?thesis by simp
    qed
  qed
qed

lemma alter_twice: "alter p v (alter p v t) = alter p v t"
proof (induction p v t rule: alter.induct)
  case (1 v t)
  then show ?case by simp
next
  case (2 x xs v c)
  then show ?case by simp
next
  case (3 x v es)
  then show ?case by (cases v) (simp_all add: delete_idem)
next
  case (4 x y ys v es)
  show ?case
  proof (cases "map_of es x")
    case None
    then show ?thesis by simp
  next
    case (Some c)
    with "4.IH"[OF Some] show ?thesis by (simp add: update_conv')
  qed
qed

section \<open>One task of the splitter\<close>

lemma move3_frame:
  assumes mv: "shutil_move [m] [c, s, m] t = Inr t'" and par: "is_dir t [c, s]" and mc: "m \<noteq> c"
  shows "n \<noteq> m \<Longrightarrow> n \<noteq> c \<Longrightarrow> lookup t' [n] = lookup t [n]"
    and "m \<noteq> c' \<Longrightarrow> (c', s', n) \<noteq> (c, s, m) \<Longrightarrow> lookup t' [c', s', n] = lookup t [c', s', n]"
    and "m \<noteq> c' \<Longrightarrow> is_dir t' [c', s'] = is_dir t [c', s']"
proof -
  have par': "is_dir t (butlast [c, s, m])" using par by simp
  note fr = shutil_move_frame[OF mv par']
  show "n \<noteq> m \<Longrightarrow> n \<noteq> c \<Longrightarrow> lookup t' [n] = lookup t [n]"
    by (rule fr(1)) simp_all
  show "m \<noteq> c' \<Longrightarrow> (c', s', n) \<noteq> (c, s, m) \<Longrightarrow> lookup t' [c', s', n] = lookup t [c', s', n]"
    by (rule fr(1)) auto
  show "m \<noteq> c' \<Longrightarrow> is_dir t' [c', s'] = is_dir t [c', s']"
    by (rule fr(2)) simp_all
qed

lemma assign_cases:
  "(\<exists>e. shutil_move [m] (dest_of r rnd m) (fs w) = Inl e \<and>
        assign_to_split_folder [m] r rnd w = Returned (print (FailedToMove [m] (dest_of r rnd m) e) w))
   \<or> (\<exists>t. shutil_move [m] (dest_of r rnd m) (fs w) = Inr t \<and>
        assign_to_split_folder [m] r rnd w = Returned (w\<lparr>fs := t\<rparr>))"
  by (cases "shutil_move [m] (dest_of r rnd m) (fs w)")
     (simp_all add: assign_to_split_folder_def dest_of_def category_of_def split_of_def Let_def)

lemma dest_of_dir:
  "split_ready t \<Longrightarrow> is_dir t [category_of m, split_of r rnd m]"
  by (auto simp: split_ready_def category_of_def split_of_def)

lemma category_plain: "plain_name m \<Longrightarrow> m \<noteq> category_of m"
  by (auto simp: plain_name_def category_of_def)

text \<open>One task of the splitter, seen from a name n other than the one it moves.\<close>

lemma assign_other:
  assumes ready: "split_ready (fs w)" and pm: "plain_name m"
    and st: "assign_to_split_folder [m] r rnd w = Returned w'"
  shows "split_ready (fs w')"
    and "n \<noteq> m \<Longrightarrow> plain_name n \<Longrightarrow> lookup (fs w') [n] = lookup (fs w) [n]"
    and "c \<in> {''images'', ''labels''} \<Longrightarrow> [c, s, n] \<noteq> dest_of r rnd m \<Longrightarrow>
           lookup (fs w') [c, s, n] = lookup (fs w) [c, s, n]"
proof -
  from assign_cases[of m r rnd w] st
  consider e where "w' = print (FailedToMove [m] (dest_of r rnd m) e) w"
    | t where "shutil_move [m] (dest_of r rnd m) (fs w) = Inr t" "w' = w\<lparr>fs := t\<rparr>"
    by auto
  note c = this
  have par: "is_dir (fs w) [category_of m, split_of r rnd m]" using ready by (rule dest_of_dir)
  have mc: "m \<noteq> category_of m" using pm by (rule category_plain)
  have mi: "m \<noteq> ''images''" "m \<noteq> ''labels''" using pm by (simp_all add: plain_name_def)
  show "split_ready (fs w')" using c
  proof cases
    case 1
    then show ?thesis using ready by (simp add: print_def)
  next
    case 2
    note fr = move3_frame(3)[OF 2(1)[unfolded dest_of_def] par mc]
    show ?thesis using ready mi by (simp add: 2(2) split_ready_def fr)
  qed
  show "lookup (fs w') [n] = lookup (fs w) [n]" if "n \<noteq> m" "plain_name n" using c
  proof cases
    case 1
    then show ?thesis by (simp add: print_def)
  next
    case 2
    have "n \<noteq> category_of m" using that(2) by (auto simp: plain_name_def category_of_def)
    with move3_frame(1)[OF 2(1)[unfolded dest_of_def] par mc that(1)]
    show ?thesis by (simp add: 2(2))
  qed
  show "lookup (fs w') [c, s, n] = lookup (fs w) [c, s, n]"
    if "c \<in> {''images'', ''labels''}" "[c, s, n] \<noteq> dest_of r rnd m" using c
  proof cases
    case 1
    then show ?thesis by (simp add: print_def)
  next
    case 2
    have "m \<noteq> c" using that(1) mi by auto
    moreover have "(c, s, n) \<noteq> (category_of m, split_of r rnd m, m)"
      using that(2) by (auto simp: dest_of_def)
    ultimately show ?thesis
      using move3_frame(2)[OF 2(1)[unfolded dest_of_def] par mc] by (simp add: 2(2))
  qed
qed

lemma assign_missing:
  assumes "lookup (fs w) [m] = None" and st: "assign_to_split_folder [m] r rnd w = Returned w'"
  shows "fs w' = fs w"
proof -
  from shutil_move_missing[OF assms(1)] obtain e
    where "shutil_move [m] (dest_of r rnd m) (fs w) = Inl e" by blast
  with assign_cases[of m r rnd w] st show ?thesis by (auto simp: print_def)
qed

lemma assign_moves:
  assumes ready: "split_ready (fs w)" and pm: "plain_name m"
    and src: "lookup (fs w) [m] = Some nd"
    and mv: "movable nd (lookup (fs w) (dest_of r rnd m))"
    and st: "assign_to_split_folder [m] r rnd w = Returned w'"
  shows "lookup (fs w') (dest_of r rnd m) = Some nd" and "lookup (fs w') [m] = None"
proof -
  let ?d = "dest_of r rnd m"
  have par: "is_dir (fs w) (butlast ?d)"
    using dest_of_dir[OF ready] by (simp add: dest_of_def)
  have mc: "m \<noteq> category_of m" using pm by (rule category_plain)
  have np: "\<not> prefix [m] ?d" "\<not> prefix ?d [m]" "?d \<noteq> []" "[m] \<noteq> ?d"
    using mc by (simp_all add: dest_of_def)
  have root: "is_dir (fs w) (butlast [m])" using lookup_parent_dir[OF src] by simp
  have "shutil_move [m] ?d (fs w) = Inr (alter ?d (Some nd) (alter [m] None (fs w)))"
  proof (cases "lookup (fs w) ?d")
    case None
    from shutil_move_fresh[OF src None np(1,3) par] show ?thesis .
  next
    case (Some x)
    with mv obtain c c' where nd: "nd = File c" and x: "x = File c'"
      by (auto simp: movable_def)
    have "\<not> is_dir (fs w) ?d" using Some x by (simp add: is_dir_def)
    from shutil_move_file[OF src[unfolded nd] np(4) np(3) par this] show ?thesis by (simp add: nd)
  qed
  with assign_cases[of m r rnd w] st
  have w': "fs w' = alter ?d (Some nd) (alter [m] None (fs w))" by auto
  from moved_lookups(1,2)[OF np(1,2,3) par _ root, of nd]
  show "lookup (fs w') ?d = Some nd" and "lookup (fs w') [m] = None"
    by (simp_all add: w')
qed

section \<open>Creating the split directories and running the splitter\<close>

lemma lookup_fresh_dirs:
  "lookup (fresh_dirs xs) zs = (if prefix zs xs then Some (fresh_dirs (drop (length zs) xs)) else None)"
proof (induction xs arbitrary: zs)
  case Nil
  then show ?case by (cases zs) simp_all
next
  case (Cons x xs)
  then show ?case by (cases zs) simp_all
qed

lemma is_dir_fresh_dirs: "prefix zs xs \<Longrightarrow> is_dir (fresh_dirs xs) zs"
proof -
  assume "prefix zs xs"
  then have "lookup (fresh_dirs xs) zs = Some (fresh_dirs (drop (length zs) xs))"
    by (simp add: lookup_fresh_dirs)
  then show ?thesis by (cases "drop (length zs) xs") (simp_all add: is_dir_def)
qed

lemma mkdir_parents_frame:
  "mkdir_parents p t = Inr t' \<Longrightarrow> \<not> prefix q p \<Longrightarrow> lookup t' q = lookup t q"
proof (induction p t arbitrary: t' q rule: mkdir_parents.induct)
  case (1 es)
  then show ?case by simp
next
  case (2 c)
  then show ?case by simp
next
  case (3 x xs c)
  then show ?case by simp
next
  case (4 x xs es)
  from "4.prems"(2) obtain z zs where q: "q = z # zs" by (cases q) auto
  show ?case
  proof (cases "map_of es x")
    case None
    with "4.prems"(1) have t': "t' = Dir (AList.update x (fresh_dirs xs) es)" by simp
    show ?thesis
    proof (cases "z = x")
      case True
      with "4.prems"(2) have "\<not> prefix zs xs" by (simp add: q)
      then show ?thesis using None True by (simp add: t' q update_conv' lookup_fresh_dirs)
    next
      case False
      then show ?thesis by (simp add: t' q update_conv')
    qed
  next
    case (Some c)
    with "4.prems"(1) obtain c' where c': "mkdir_parents xs c = Inr c'"
      and t': "t' = Dir (AList.update x c' es)"
      by (auto split: sum.splits)
    show ?thesis
    proof (cases "z = x")
      case True
      with "4.prems"(2) have "\<not> prefix zs xs" by (simp add: q)
      from "4.IH"[OF Some c' this] show ?thesis using Some True by (simp add: t' q update_conv')
    next
      case False
      then show ?thesis by (simp add: t' q update_conv')
    qed
  qed
qed

lemma mkdir_parents_dirs:
  "mkdir_parents p t = Inr t' \<Longrightarrow> prefix q p \<Longrightarrow> is_dir t' q"
proof (induction p t arbitrary: t' q rule: mkdir_parents.induct)
  case (1 es)
  then show ?case by (auto simp: is_dir_def)
next
  case (2 c)
  then show ?case by simp
next
  case (3 x xs c)
  then show ?case by simp
next
  case (4 x xs es)
  show ?case
  proof (cases q)
    case Nil
    with "4.prems"(1) show ?thesis
      by (auto simp: is_dir_def split: option.splits sum.splits)
  next
    case (Cons z zs)
    with "4.prems"(2) have z: "z = x" and pz: "prefix zs xs" by simp_all
    show ?thesis
    proof (cases "map_of es x")
      case None
      with "4.prems"(1) have t': "t' = Dir (AList.update x (fresh_dirs xs) es)" by simp
      from is_dir_fresh_dirs[OF pz] show ?thesis
        by (simp add: t' Cons z is_dir_def update_conv')
    next
      case (Some c)
      with "4.prems"(1) obtain c' where c': "mkdir_parents xs c = Inr c'"
        and t': "t' = Dir (AList.update x c' es)"
        by (auto split: sum.splits)
      from "4.IH"[OF Some c' pz] show ?thesis
        by (simp add: t' Cons z is_dir_def update_conv')
    qed
  qed
qed

lemma mkdir_parents_keeps_dir:
  assumes "mkdir_parents p t = Inr t'" "is_dir t q"
  shows "is_dir t' q"
proof (cases "prefix q p")
  case True
  with assms(1) show ?thesis by (rule mkdir_parents_dirs)
next
  case False
  with mkdir_parents_frame[OF assms(1) False] assms(2) show ?thesis by (simp add: is_dir_def)
qed

lemma create_split_dirs_loop_frame:
  "create_split_dirs_loop ds w = Returned w' \<Longrightarrow>
     out w' = out w \<and>
     (\<forall>q. is_dir (fs w) q \<longrightarrow> is_dir (fs w') q) \<and>
     (\<forall>d \<in> set ds. is_dir (fs w') d) \<and>
     (\<forall>q. (\<forall>d \<in> set ds. \<not> prefix q d) \<longrightarrow> lookup (fs w') q = lookup (fs w) q)"
proof (induction ds arbitrary: w)
  case Nil
  then show ?case by simp
next
  case (Cons d ds)
  from Cons.prems obtain t where t: "mkdir_parents d (fs w) = Inr t"
    and rest: "create_split_dirs_loop ds (w\<lparr>fs := t\<rparr>) = Returned w'"
    by (auto split: sum.splits)
  note ih = Cons.IH[OF rest]
  have d: "is_dir t d" using t by (rule mkdir_parents_dirs) simp
  have keep: "is_dir (fs w') q" if "is_dir (fs w) q" for q
    using ih mkdir_parents_keeps_dir[OF t that] by simp
  have fr: "lookup (fs w') q = lookup (fs w) q" if "\<forall>d' \<in> set (d # ds). \<not> prefix q d'" for q
    using ih mkdir_parents_frame[OF t, of q] that by simp
  show ?case using ih d keep fr by simp
qed

lemma py_suffix_category_dirs: "py_suffix ''images'' = []" "py_suffix ''labels'' = []"
  by code_simp+

lemma create_split_dirs_ok:
  assumes "create_split_dirs w = Returned w1"
  shows "split_ready (fs w1)" and "out w1 = out w"
    and "plain_name n \<Longrightarrow> lookup (fs w1) [n] = lookup (fs w) [n]"
    and "lookup (fs w1) [c, s, n] = lookup (fs w) [c, s, n]"
proof -
  note fr = create_split_dirs_loop_frame[OF assms[unfolded create_split_dirs_def]]
  show "split_ready (fs w1)" using fr by (simp add: split_ready_def)
  show "out w1 = out w" using fr by simp
  show "lookup (fs w1) [n] = lookup (fs w) [n]" if "plain_name n"
    using fr that by (simp add: plain_name_def)
  show "lookup (fs w1) [c, s, n] = lookup (fs w) [c, s, n]"
    using fr by simp
qed

lemma split_files_shape:
  assumes "f \<in> set (split_files t)"
  shows "\<exists>m. f = [m] \<and> plain_name m \<and> py_suffix m \<in> {''.jpg'', ''.png'', ''.txt''}"
proof -
  from assms obtain m where f: "f = [m]" and s: "py_suffix m \<in> {''.jpg'', ''.png'', ''.txt''}"
    by (auto simp: split_files_def iterdir_def split: option.splits node.splits)
  from s have "plain_name m"
    using py_suffix_category_dirs by (auto simp: plain_name_def)
  with f s show ?thesis by blast
qed

lemma split_files_mem:
  assumes "lookup t [n] = Some nd" "py_suffix n \<in> {''.jpg'', ''.png'', ''.txt''}"
  shows "[n] \<in> set (split_files t)"
proof -
  from assms(1) obtain es where t: "t = Dir es" and m: "map_of es n = Some nd"
    by (auto simp: lookup_Cons_Some)
  from m have "(n, nd) \<in> set es" by (rule map_of_SomeD)
  then have "[n] \<in> set (iterdir t [])" by (force simp: iterdir_def t)
  with assms(2) show ?thesis by (simp add: split_files_def)
qed

lemma assign_returns: "\<exists>w'. assign_to_split_folder f r rnd w = Returned w'"
  by (simp add: assign_to_split_folder_def Let_def split: sum.splits)

lemma names_only_Cons:
  "names_only (a # fl) \<Longrightarrow> \<exists>m. a = [m] \<and> plain_name m \<and> names_only fl"
  by (simp add: names_only_def)

lemma for_each_Cons_Returned:
  "for_each f (a # as) w = Returned w' \<Longrightarrow>
     \<exists>w1. f a w = Returned w1 \<and> for_each f as w1 = Returned w'"
  by (cases "f a w") simp_all

lemma split_loop_returns:
  "\<exists>w'. for_each (\<lambda>f. assign_to_split_folder f r rnd) fl w = Returned w'"
  by (rule for_each_returns) (rule assign_returns)

lemma split_loop_ready:
  "for_each (\<lambda>f. assign_to_split_folder f r rnd) fl w = Returned w' \<Longrightarrow>
     split_ready (fs w) \<Longrightarrow> names_only fl \<Longrightarrow> split_ready (fs w')"
proof (induction fl arbitrary: w)
  case Nil
  then show ?case by simp
next
  case (Cons a fl)
  from names_only_Cons[OF Cons.prems(3)] obtain m where a: "a = [m]" and pm: "plain_name m"
    and rest: "names_only fl" by blast
  from for_each_Cons_Returned[OF Cons.prems(1)] obtain w1
    where st: "assign_to_split_folder [m] r rnd w = Returned w1"
      and run: "for_each (\<lambda>f. assign_to_split_folder f r rnd) fl w1 = Returned w'"
    unfolding a by blast
  from assign_other(1)[OF Cons.prems(2) pm st] have "split_ready (fs w1)" .
  from Cons.IH[OF run this rest] show ?case .
qed

lemma split_loop_other_root:
  "for_each (\<lambda>f. assign_to_split_folder f r rnd) fl w = Returned w' \<Longrightarrow>
     split_ready (fs w) \<Longrightarrow> names_only fl \<Longrightarrow> plain_name n \<Longrightarrow> [n] \<notin> set fl \<Longrightarrow>
     lookup (fs w') [n] = lookup (fs w) [n]"
proof (induction fl arbitrary: w)
  case Nil
  then show ?case by simp
next
  case (Cons a fl)
  from names_only_Cons[OF Cons.prems(3)] obtain m where a: "a = [m]" and pm: "plain_name m"
    and rest: "names_only fl" by blast
  from for_each_Cons_Returned[OF Cons.prems(1)] obtain w1
    where st: "assign_to_split_folder [m] r rnd w = Returned w1"
      and run: "for_each (\<lambda>f. assign_to_split_folder f r rnd) fl w1 = Returned w'"
    unfolding a by blast
  note o = assign_other[OF Cons.prems(2) pm st]
  from Cons.prems(5) have nm: "n \<noteq> m" and nfl: "[n] \<notin> set fl" by (simp_all add: a)
  from Cons.IH[OF run o(1) rest Cons.prems(4) nfl] o(2)[OF nm Cons.prems(4)]
  show ?case by simp
qed

lemma split_loop_placed:
  "for_each (\<lambda>f. assign_to_split_folder f r rnd) fl w = Returned w' \<Longrightarrow>
     split_ready (fs w) \<Longrightarrow> names_only fl \<Longrightarrow> plain_name n \<Longrightarrow> lookup (fs w) [n] = None \<Longrightarrow>
     c \<in> {''images'', ''labels''} \<Longrightarrow>
     lookup (fs w') [n] = None \<and> lookup (fs w') [c, s, n] = lookup (fs w) [c, s, n]"
proof (induction fl arbitrary: w)
  case Nil
  then show ?case by simp
next
  case (Cons a fl)
  from names_only_Cons[OF Cons.prems(3)] obtain m where a: "a = [m]" and pm: "plain_name m"
    and rest: "names_only fl" by blast
  from for_each_Cons_Returned[OF Cons.prems(1)] obtain w1
    where st: "assign_to_split_folder [m] r rnd w = Returned w1"
      and run: "for_each (\<lambda>f. assign_to_split_folder f r rnd) fl w1 = Returned w'"
    unfolding a by blast
  note o = assign_other[OF Cons.prems(2) pm st]
  have same: "lookup (fs w1) [n] = None \<and> lookup (fs w1) [c, s, n] = lookup (fs w) [c, s, n]"
  proof (cases "m = n")
    case True
    from assign_missing[OF Cons.prems(5)[folded True] st] Cons.prems(5) show ?thesis by simp
  next
    case False
    then have "[c, s, n] \<noteq> dest_of r rnd m" by (simp add: dest_of_def)
    from o(3)[OF Cons.prems(6) this] o(2)[OF False[symmetric] Cons.prems(4)] Cons.prems(5)
    show ?thesis by simp
  qed
  from Cons.IH[OF run o(1) rest Cons.prems(4) conjunct1[OF same] Cons.prems(6)] same
  show ?case by simp
qed

lemma category_of_dir: "category_of n \<in> {''images'', ''labels''}"
  by (simp add: category_of_def)

lemma split_loop_moves:
  "for_each (\<lambda>f. assign_to_split_folder f r rnd) fl w = Returned w' \<Longrightarrow>
     split_ready (fs w) \<Longrightarrow> names_only fl \<Longrightarrow> plain_name n \<Longrightarrow> [n] \<in> set fl \<Longrightarrow>
     lookup (fs w) [n] = Some nd \<Longrightarrow> movable nd (lookup (fs w) (dest_of r rnd n)) \<Longrightarrow>
     lookup (fs w') (dest_of r rnd n) = Some nd \<and> lookup (fs w') [n] = None \<and>
     (c \<in> {''images'', ''labels''} \<longrightarrow> [c, s, n] \<noteq> dest_of r rnd n \<longrightarrow>
        lookup (fs w') [c, s, n] = lookup (fs w) [c, s, n])"
proof (induction fl arbitrary: w)
  case Nil
  then show ?case by simp
next
  case (Cons a fl)
  from names_only_Cons[OF Cons.prems(3)] obtain m where a: "a = [m]" and pm: "plain_name m"
    and rest: "names_only fl" by blast
  from for_each_Cons_Returned[OF Cons.prems(1)] obtain w1
    where st: "assign_to_split_folder [m] r rnd w = Returned w1"
      and run: "for_each (\<lambda>f. assign_to_split_folder f r rnd) fl w1 = Returned w'"
    unfolding a by blast
  note o = assign_other[OF Cons.prems(2) pm st]
  show ?case
  proof (cases "m = n")
    case True
    note mv = assign_moves[OF Cons.prems(2) pm Cons.prems(6)[folded True]
        Cons.prems(7)[folded True] st, unfolded True]
    note pl = split_loop_placed[OF run o(1) rest Cons.prems(4) mv(2)]
    have d: "lookup (fs w') (dest_of r rnd n) = Some nd"
      using pl[OF category_of_dir, of n "split_of r rnd n"] mv(1) by (simp add: dest_of_def)
    have g: "lookup (fs w') [n] = None"
      using pl[OF category_of_dir, of n "split_of r rnd n"] by simp
    have k: "lookup (fs w') [c, s, n] = lookup (fs w) [c, s, n]"
      if "c \<in> {''images'', ''labels''}" "[c, s, n] \<noteq> dest_of r rnd n"
    proof -
      have "lookup (fs w') [c, s, n] = lookup (fs w1) [c, s, n]"
        using pl[OF that(1), of s] by (rule conjunct2)
      also have "\<dots> = lookup (fs w) [c, s, n]"
        using that(2) unfolding True[symmetric] by (rule o(3)[OF that(1)])
      finally show ?thesis .
    qed
    from d g k show ?thesis by blast
  next
    case False
    then have nd: "[c', s', n] \<noteq> dest_of r rnd m" for c' s' by (simp add: dest_of_def)
    have mem: "[n] \<in> set fl" using Cons.prems(5) False by (simp add: a)
    have src1: "lookup (fs w1) [n] = Some nd"
      using o(2)[OF False[symmetric] Cons.prems(4)] Cons.prems(6) by simp
    have same: "lookup (fs w1) [c', s', n] = lookup (fs w) [c', s', n]"
      if "c' \<in> {''images'', ''labels''}" for c' s'
      using o(3)[OF that nd] .
    have mv1: "movable nd (lookup (fs w1) (dest_of r rnd n))"
      using Cons.prems(7) same[OF category_of_dir, of n "split_of r rnd n"]
      by (simp add: dest_of_def)
    note ih = Cons.IH[OF run o(1) rest Cons.prems(4) mem src1 mv1]
    have k: "lookup (fs w') [c, s, n] = lookup (fs w) [c, s, n]"
      if "c \<in> {''images'', ''labels''}" "[c, s, n] \<noteq> dest_of r rnd n"
    proof -
      have "lookup (fs w') [c, s, n] = lookup (fs w1) [c, s, n]" using ih that by blast
      also have "\<dots> = lookup (fs w) [c, s, n]" using that(1) by (rule same)
      finally show ?thesis .
    qed
    from ih k show ?thesis by blast
  qed
qed

lemma split_dataset_loop:
  assumes "create_split_dirs (print Splitting w) = Returned w1"
  shows "split_dataset r rnd w =
           for_each (\<lambda>f. assign_to_split_folder f r rnd) (split_files (fs w1)) w1"
  using assms by (simp add: split_dataset_def)

lemma names_only_split_files: "names_only (split_files t)"
  unfolding names_only_def using split_files_shape by blast

lemma split_dataset_moves:
  assumes src: "lookup (fs w) [n] = Some nd"
    and ext: "py_suffix n \<in> {''.jpg'', ''.png'', ''.txt''}"
    and dirs: "create_split_dirs (print Splitting w) = Returned w1"
    and mv: "movable nd (lookup (fs w) (dest_of r rnd n))"
  shows "\<exists>w'. split_dataset r rnd w = Returned w' \<and> split_ready (fs w') \<and>
           lookup (fs w') (dest_of r rnd n) = Some nd \<and> lookup (fs w') [n] = None \<and>
           (\<forall>c s. c \<in> {''images'', ''labels''} \<longrightarrow> [c, s, n] \<noteq> dest_of r rnd n \<longrightarrow>
              lookup (fs w') [c, s, n] = lookup (fs w) [c, s, n])"
proof -
  note ok = create_split_dirs_ok[OF dirs]
  have pn: "plain_name n" using ext py_suffix_category_dirs by (auto simp: plain_name_def)
  have fs0: "fs (print Splitting w) = fs w" by (simp add: print_def)
  have src1: "lookup (fs w1) [n] = Some nd" using ok(3)[OF pn] src fs0 by simp
  have same: "lookup (fs w1) [c, s, n] = lookup (fs w) [c, s, n]" for c s
    using ok(4)[of c s n] fs0 by simp
  have mv1: "movable nd (lookup (fs w1) (dest_of r rnd n))"
    using mv same by (simp add: dest_of_def)
  have mem: "[n] \<in> set (split_files (fs w1))" using src1 ext by (rule split_files_mem)
  from split_loop_returns obtain w'
    where run: "for_each (\<lambda>f. assign_to_split_folder f r rnd) (split_files (fs w1)) w1 = Returned w'"
    by blast
  note m = split_loop_moves[OF run ok(1) names_only_split_files pn mem src1 mv1]
  have "lookup (fs w') [c, s, n] = lookup (fs w) [c, s, n]"
    if "c \<in> {''images'', ''labels''}" "[c, s, n] \<noteq> dest_of r rnd n" for c s
  proof -
    have "lookup (fs w') [c, s, n] = lookup (fs w1) [c, s, n]" using m[of c s] that by blast
    then show ?thesis by (simp only: same)
  qed
  moreover have "split_ready (fs w')"
    using run ok(1) names_only_split_files by (rule split_loop_ready)
  moreover have "lookup (fs w') (dest_of r rnd n) = Some nd" "lookup (fs w') [n] = None"
    using m[of "''images''" "''train''"] by blast+
  ultimately show ?thesis using run split_dataset_loop[OF dirs, of r rnd] by auto
qed

lemma split_files_set:
  "set (split_files t) = {[m] | m. exists t [m] \<and> py_suffix m \<in> {''.jpg'', ''.png'', ''.txt''}}"
proof (cases t)
  case (File c)
  then show ?thesis by (simp add: split_files_def iterdir_def exists_def)
next
  case (Dir es)
  have "exists t [m] \<longleftrightarrow> m \<in> fst ` set es" for m
  proof -
    have "exists t [m] \<longleftrightarrow> map_of es m \<noteq> None"
      by (simp add: Dir exists_def split: option.splits)
    then show ?thesis by (simp add: map_of_eq_None_iff)
  qed
  moreover have "set (iterdir t []) = (\<lambda>m. [m]) ` fst ` set es"
    by (force simp: Dir iterdir_def)
  ultimately show ?thesis by (auto simp: split_files_def)
qed

lemma lower_no_suffix: "lower [] \<notin> {''.jpg'', ''.png'', ''.txt''}"
  by (simp add: lower_def)

lemma split_dataset_Returned:
  assumes "split_dataset r rnd w = Returned w'"
  shows "\<exists>w1. create_split_dirs (print Splitting w) = Returned w1 \<and>
           for_each (\<lambda>f. assign_to_split_folder f r rnd) (split_files (fs w1)) w1 = Returned w'"
  using assms by (cases "create_split_dirs (print Splitting w)") (simp_all add: split_dataset_def)

lemma split_dataset_leaves_unrecognized:
  assumes run: "split_dataset r rnd w = Returned w'"
    and pn: "plain_name n" and ext: "py_suffix n \<notin> {''.jpg'', ''.png'', ''.txt''}"
  shows "lookup (fs w') [n] = lookup (fs w) [n]"
proof -
  from split_dataset_Returned[OF run] obtain w1
    where dirs: "create_split_dirs (print Splitting w) = Returned w1"
      and loop: "for_each (\<lambda>f. assign_to_split_folder f r rnd) (split_files (fs w1)) w1 = Returned w'"
    by blast
  note ok = create_split_dirs_ok[OF dirs]
  have "[n] \<notin> set (split_files (fs w1))" using ext by (simp add: split_files_set)
  from split_loop_other_root[OF loop ok(1) names_only_split_files pn this]
  have "lookup (fs w') [n] = lookup (fs w1) [n]" .
  also have "\<dots> = lookup (fs w) [n]" using ok(3)[OF pn] by (simp add: print_def)
  finally show ?thesis .
qed

lemma mkdir_parents_succeeds:
  "(\<And>q. prefix q p \<Longrightarrow> \<not> is_file t q) \<Longrightarrow> \<exists>t'. mkdir_parents p t = Inr t'"
proof (induction p t rule: mkdir_parents.induct)
  case (1 es)
  then show ?case by simp
next
  case (2 c)
  from "2.prems"[of "[]"] show ?case by (simp add: is_file_def)
next
  case (3 x xs c)
  from "3.prems"[of "[]"] show ?case by (simp add: is_file_def)
next
  case (4 x xs es)
  show ?case
  proof (cases "map_of es x")
    case None
    then show ?thesis by simp
  next
    case (Some c)
    have "\<not> is_file c q" if "prefix q xs" for q
      using "4.prems"[of "x # q"] that Some by (simp add: is_file_def)
    from "4.IH"[OF Some this] obtain c' where "mkdir_parents xs c = Inr c'" by blast
    with Some show ?thesis by simp
  qed
qed

lemma mkdir_parents_no_file:
  "mkdir_parents p t = Inr t' \<Longrightarrow> prefix q p \<Longrightarrow> \<not> is_file t q"
proof (induction p t arbitrary: t' q rule: mkdir_parents.induct)
  case (1 es)
  then have "q = []" by simp
  then show ?case by (simp add: is_file_def)
next
  case (2 c)
  then show ?case by simp
next
  case (3 x xs c)
  then show ?case by simp
next
  case (4 x xs es)
  show ?case
  proof (cases q)
    case Nil
    then show ?thesis by (simp add: is_file_def)
  next
    case (Cons z zs)
    with "4.prems"(2) have z: "z = x" and pz: "prefix zs xs" by simp_all
    show ?thesis
    proof (cases "map_of es x")
      case None
      then show ?thesis by (simp add: Cons z is_file_def)
    next
      case (Some c)
      with "4.prems"(1) obtain c' where "mkdir_parents xs c = Inr c'"
        by (auto split: sum.splits)
      from "4.IH"[OF Some this pz] Some show ?thesis by (simp add: Cons z is_file_def)
    qed
  qed
qed

lemma mkdir_parents_is_file:
  assumes "mkdir_parents p t = Inr t'"
  shows "is_file t' q = is_file t q"
proof (cases "prefix q p")
  case True
  from mkdir_parents_dirs[OF assms True] have "\<not> is_file t' q"
    by (auto simp: is_dir_def is_file_def split: option.splits node.splits)
  with mkdir_parents_no_file[OF assms True] show ?thesis by simp
next
  case False
  from mkdir_parents_frame[OF assms False] show ?thesis by (simp add: is_file_def)
qed

lemma create_split_dirs_loop_succeeds:
  "(\<And>d q. d \<in> set ds \<Longrightarrow> prefix q d \<Longrightarrow> \<not> is_file (fs w) q) \<Longrightarrow>
     \<exists>w'. create_split_dirs_loop ds w = Returned w'"
proof (induction ds arbitrary: w)
  case Nil
  then show ?case by simp
next
  case (Cons d ds)
  have "\<exists>t. mkdir_parents d (fs w) = Inr t"
  proof (rule mkdir_parents_succeeds)
    fix q assume "prefix q d"
    with Cons.prems[of d q] show "\<not> is_file (fs w) q" by simp
  qed
  then obtain t where t: "mkdir_parents d (fs w) = Inr t" by blast
  have "\<not> is_file (fs (w\<lparr>fs := t\<rparr>)) q" if "d' \<in> set ds" "prefix q d'" for d' q
    using Cons.prems[of d' q] that mkdir_parents_is_file[OF t, of q] by simp
  from Cons.IH[OF this] t show ?case by simp
qed

lemma prefix_two: "prefix q [a, b] \<longleftrightarrow> q = [] \<or> q = [a] \<or> q = [a, b]"
  by (cases q; cases "tl q"; cases "tl (tl q)") auto

lemma create_split_dirs_succeeds:
  assumes "is_dir (fs w) []" "split_dirs_free (fs w)"
  shows "\<exists>w1. create_split_dirs w = Returned w1"
  unfolding create_split_dirs_def
proof (rule create_split_dirs_loop_succeeds)
  fix d q
  assume d: "d \<in> set (map (\<lambda>(category, split). [category, split])
                 (List.product [''images'', ''labels''] [''train'', ''val'']))"
    and q: "prefix q d"
  have root: "\<not> is_file (fs w) []"
    using assms(1) by (auto simp: is_dir_def is_file_def split: option.splits node.splits)
  from d consider "d = [''images'', ''train'']" | "d = [''images'', ''val'']"
    | "d = [''labels'', ''train'']" | "d = [''labels'', ''val'']" by auto
  then show "\<not> is_file (fs w) q"
    using q root assms(2) by cases (auto simp: prefix_two split_dirs_free_def)
qed

section \<open>Removing empty directories\<close>

lemma walk_bottom_up_Dir:
  "fst (walk_bottom_up dp (Dir es)) =
     Dir (filter (\<lambda>(d, c). c \<noteq> Dir []) (map (\<lambda>(d, c). (d, fst (walk_bottom_up (dp @ [d]) c))) es))"
  by (simp add: Let_def case_prod_unfold comp_def)

lemma walk_no_empty_dir:
  "p \<noteq> [] \<Longrightarrow> lookup (fst (walk_bottom_up dp t)) p \<noteq> Some (Dir [])"
proof (induction dp t arbitrary: p rule: walk_bottom_up.induct)
  case (1 dirpath c)
  then show ?case by (cases p) simp_all
next
  case (2 dirpath es)
  from "2.prems" obtain x xs where p: "p = x # xs" by (cases p) auto
  let ?es' = "filter (\<lambda>(d, c). c \<noteq> Dir [])
                (map (\<lambda>(d, c). (d, fst (walk_bottom_up (dirpath @ [d]) c))) es)"
  show ?case
  proof (cases "map_of ?es' x")
    case None
    then show ?thesis unfolding walk_bottom_up_Dir p by simp
  next
    case (Some c')
    then have "(x, c') \<in> set ?es'" by (rule map_of_SomeD)
    then obtain c where mem: "(x, c) \<in> set es"
      and c': "c' = fst (walk_bottom_up (dirpath @ [x]) c)" and ne: "c' \<noteq> Dir []"
      by auto
    show ?thesis
    proof (cases xs)
      case Nil
      with Some ne show ?thesis unfolding walk_bottom_up_Dir p by simp
    next
      case (Cons y ys)
      from "2.IH"[OF mem refl, of xs] Cons have "lookup c' xs \<noteq> Some (Dir [])"
        unfolding c' by simp
      with Some show ?thesis unfolding walk_bottom_up_Dir p by simp
    qed
  qed
qed

lemma walk_keeps_files:
  "lookup t p = Some (File content) \<Longrightarrow> lookup (fst (walk_bottom_up dp t)) p = Some (File content)"
proof (induction dp t arbitrary: p rule: walk_bottom_up.induct)
  case (1 dirpath c)
  then show ?case by (cases p) simp_all
next
  case (2 dirpath es)
  from "2.prems" obtain x xs where p: "p = x # xs" by (cases p) auto
  with "2.prems" obtain c where c: "map_of es x = Some c" and l: "lookup c xs = Some (File content)"
    by (auto split: option.splits)
  from c have mem: "(x, c) \<in> set es" by (rule map_of_SomeD)
  let ?c' = "fst (walk_bottom_up (dirpath @ [x]) c)"
  from "2.IH"[OF mem refl l] have l': "lookup ?c' xs = Some (File content)" .
  then have ne: "?c' \<noteq> Dir []" by (cases xs) auto
  have "map_of (map (\<lambda>(d, c). (d, fst (walk_bottom_up (dirpath @ [d]) c))) es) x = Some ?c'"
    using c by (induction es) (auto split: if_splits)
  with ne have "map_of (filter (\<lambda>(d, c). c \<noteq> Dir [])
      (map (\<lambda>(d, c). (d, fst (walk_bottom_up (dirpath @ [d]) c))) es)) x = Some ?c'"
    by (intro map_of_filter_in) simp_all
  with l' show ?case unfolding walk_bottom_up_Dir p by simp
qed

text \<open>
  Where nothing is refused, the walk over the refusing file system is the walk over
  the ideal one.
\<close>

lemma remove_listed_dirs_ideal:
  "remove_listed_dirs no_faults dp es =
     (None, filter (\<lambda>(d, c). c \<noteq> Dir []) es,
      map (\<lambda>(d, c). RemovedEmptyDir (dp @ [d])) (filter (\<lambda>(d, c). c = Dir []) es))"
  by (induction no_faults dp es rule: remove_listed_dirs.induct)
     (simp_all add: no_faults_def denied_nowhere_def)

lemma walk_faults_ideal:
  "walk_faults no_faults dp t = (None, walk_bottom_up dp t)"
  "walk_each no_faults dp es =
     (None, map (\<lambda>(d, c). (d, fst (walk_bottom_up (dp @ [d]) c))) es,
      concat (map (\<lambda>(d, c). snd (walk_bottom_up (dp @ [d]) c)) es))"
proof (induction no_faults dp t and no_faults dp es rule: walk_faults_walk_each.induct)
  case (1 dirpath c)
  show ?case by simp
next
  case (2 dirpath es)
  have nl: "\<not> listdir_denied no_faults dirpath"
    by (simp add: no_faults_def denied_nowhere_def)
  from 2[OF nl] nl show ?case
    by (simp add: remove_listed_dirs_ideal Let_def case_prod_unfold comp_def)
next
  case (3 dirpath)
  show ?case by simp
next
  case (4 dirpath d c es)
  obtain t ms where wb: "walk_bottom_up (dirpath @ [d]) c = (t, ms)"
    by (cases "walk_bottom_up (dirpath @ [d]) c")
  from 4(1) wb have h: "walk_faults no_faults (dirpath @ [d]) c = (None, t, ms)" by simp
  from 4(2)[OF h[symmetric] refl] h wb show ?case by simp
qed

lemma remove_empty_dirs_faults_ideal:
  "remove_empty_dirs_faults no_faults w = remove_empty_dirs w"
  by (simp add: remove_empty_dirs_faults_def remove_empty_dirs_def walk_faults_ideal(1)
        split: prod.splits)

section \<open>Removing unwanted files\<close>

lemma remove_unwanted_step_alt:
  "remove_unwanted_step f w =
     (if is_file (fs w) f \<and> unwanted f
      then (case unlink f (fs w) of
              Inr t \<Rightarrow> Returned (print (Removed f) (w\<lparr>fs := t\<rparr>))
            | Inl e \<Rightarrow> Returned (print (ErrorRemoving f e) w))
      else Returned w)"
  by (simp only: remove_unwanted_step_def unwanted_def)

lemma remove_unwanted_step_file_iff:
  assumes "remove_unwanted_step f w = Returned w1" "f \<noteq> []"
  shows "lookup (fs w1) q = Some (File d) \<longleftrightarrow>
           lookup (fs w) q = Some (File d) \<and> \<not> (q = f \<and> unwanted f)"
proof (cases "is_file (fs w) f \<and> unwanted f")
  case False
  with assms(1) have "w1 = w" by (simp only: remove_unwanted_step_alt if_False outcome.inject)
  moreover have "\<not> (lookup (fs w) q = Some (File d) \<and> q = f \<and> unwanted f)"
    using False by (auto simp: is_file_def)
  ultimately show ?thesis by auto
next
  case True
  then obtain c where c: "lookup (fs w) f = Some (File c)"
    by (auto simp: is_file_def split: option.splits node.splits)
  from unlink_file[OF c assms(2)] True assms(1)
  have "fs w1 = alter f None (fs w)"
    by (auto simp: remove_unwanted_step_alt print_def)
  with alter_None_file_iff[OF c assms(2), of q d] True show ?thesis by auto
qed

lemma remove_unwanted_loop_file_iff:
  "for_each remove_unwanted_step ps w = Returned w' \<Longrightarrow> [] \<notin> set ps \<Longrightarrow>
     lookup (fs w') q = Some (File d) \<longleftrightarrow>
       lookup (fs w) q = Some (File d) \<and> \<not> (q \<in> set ps \<and> unwanted q)"
proof (induction ps arbitrary: w)
  case Nil
  then show ?case by simp
next
  case (Cons a ps)
  from for_each_Cons_Returned[OF Cons.prems(1)] obtain w1
    where st: "remove_unwanted_step a w = Returned w1"
      and run: "for_each remove_unwanted_step ps w1 = Returned w'" by blast
  from Cons.prems(2) have a: "a \<noteq> []" and ps: "[] \<notin> set ps" by auto
  from Cons.IH[OF run ps] remove_unwanted_step_file_iff[OF st a, of q d]
  show ?case by auto
qed

lemma rglob_star_nonempty: "[] \<notin> set (rglob_star t)"
  unfolding rglob_star_def using rglob_from_shape[of "[]" "[]" t] by auto

lemma rglob_star_mem: "lookup t p = Some nd \<Longrightarrow> p \<noteq> [] \<Longrightarrow> p \<in> set (rglob_star t)"
  unfolding rglob_star_def using rglob_from_mem[of t p nd "[]"] by simp

lemma remove_unwanted_files_file_iff:
  assumes "remove_unwanted_files w = Returned w'" "q \<noteq> []"
  shows "lookup (fs w') q = Some (File d) \<longleftrightarrow> lookup (fs w) q = Some (File d) \<and> \<not> unwanted q"
proof -
  let ?w1 = "print RemovingUnwanted w"
  have fs1: "fs ?w1 = fs w" by (simp add: print_def)
  from assms(1) have run: "for_each remove_unwanted_step (rglob_star (fs w)) ?w1 = Returned w'"
    by (simp add: remove_unwanted_files_def Let_def fs1)
  from remove_unwanted_loop_file_iff[OF run rglob_star_nonempty, of q d]
  have "lookup (fs w') q = Some (File d) \<longleftrightarrow>
       lookup (fs w) q = Some (File d) \<and> \<not> (q \<in> set (rglob_star (fs w)) \<and> unwanted q)"
    by (simp add: fs1)
  moreover have "q \<in> set (rglob_star (fs w))" if "lookup (fs w) q = Some (File d)"
    using that assms(2) by (rule rglob_star_mem)
  ultimately show ?thesis by blast
qed

section \<open>Exceptions are caught\<close>

lemma reset_label_classes_returns:
  "\<exists>w'. reset_label_classes f w = Returned w' \<and>
     (out w' = out w \<or> (\<exists>e. out w' = out w @ [FailedToUpdate f e]))"
  by (simp add: reset_label_classes_def print_def split: sum.splits)

lemma remove_unwanted_step_returns:
  "\<exists>w'. remove_unwanted_step f w = Returned w' \<and>
     (out w' = out w \<or> out w' = out w @ [Removed f] \<or> (\<exists>e. out w' = out w @ [ErrorRemoving f e]))"
  by (simp add: remove_unwanted_step_def print_def split: sum.splits)

section \<open>Writing the manifest\<close>

lemma write_text_root_entry:
  assumes "is_dir t []" "\<not> is_dir t [x]"
  shows "write_text [x] c t = Inr (alter [x] (Some (File c)) t)"
    and "lookup (alter [x] (Some (File c)) t) [x] = Some (File c)"
proof -
  from assms(1) obtain es where t: "t = Dir es" by (cases t) (auto simp: is_dir_def)
  show "write_text [x] c t = Inr (alter [x] (Some (File c)) t)"
    using assms(2) by (auto simp: write_text_def is_dir_def t split: option.splits node.splits)
  show "lookup (alter [x] (Some (File c)) t) [x] = Some (File c)"
    using assms(1) by (simp add: lookup_alter_same)
qed

section \<open>Updating all label files\<close>

lemma write_text_file:
  "lookup t p = Some (File c) \<Longrightarrow> p \<noteq> [] \<Longrightarrow>
     write_text p c' t = Inr (alter p (Some (File c')) t)"
  by (simp add: write_text_def)

lemma reset_label_classes_file:
  assumes "lookup (fs w) p = Some (File c)" "p \<noteq> []"
  shows "reset_label_classes p w =
           Returned (w\<lparr>fs := alter p (Some (File (reset_label_text c))) (fs w)\<rparr>)"
  using assms write_text_file[OF assms]
  by (simp add: reset_label_classes_def read_text_def)

lemma reset_label_classes_other:
  assumes "\<not> is_file (fs w) p" "reset_label_classes p w = Returned w1"
  shows "fs w1 = fs w"
proof -
  from assms(1) have "\<exists>e. read_text p (fs w) = Inl e"
    by (auto simp: read_text_def is_file_def split: option.splits node.splits)
  with assms(2) show ?thesis by (auto simp: reset_label_classes_def print_def)
qed

lemma reset_loop_content:
  "for_each reset_label_classes ps w = Returned w' \<Longrightarrow> [] \<notin> set ps \<Longrightarrow>
     lookup (fs w) p = Some (File c) \<Longrightarrow> p \<noteq> [] \<Longrightarrow>
     lookup (fs w') p = Some (File (if p \<in> set ps then reset_label_text c else c))"
proof (induction ps arbitrary: w c)
  case Nil
  then show ?case by simp
next
  case (Cons a ps)
  from for_each_Cons_Returned[OF Cons.prems(1)] obtain w1
    where st: "reset_label_classes a w = Returned w1"
      and run: "for_each reset_label_classes ps w1 = Returned w'" by blast
  from Cons.prems(2) have a: "a \<noteq> []" and ps: "[] \<notin> set ps" by auto
  have par: "is_dir (fs w) (butlast p)" using Cons.prems(3,4) by (rule lookup_parent_dir)
  show ?case
  proof (cases "a = p")
    case True
    from reset_label_classes_file[OF Cons.prems(3,4)] st
    have "w1 = w\<lparr>fs := alter p (Some (File (reset_label_text c))) (fs w)\<rparr>"
      unfolding True by simp
    then have "fs w1 = alter p (Some (File (reset_label_text c))) (fs w)" by simp
    then have "lookup (fs w1) p = Some (File (reset_label_text c))"
      using Cons.prems(4) par by (simp add: lookup_alter_same)
    from Cons.IH[OF run ps this Cons.prems(4)] show ?thesis
      by (simp add: True reset_label_text_idem)
  next
    case False
    have "lookup (fs w1) p = Some (File c)"
    proof (cases "is_file (fs w) a")
      case True
      then obtain ca where ca: "lookup (fs w) a = Some (File ca)"
        by (auto simp: is_file_def split: option.splits node.splits)
      from reset_label_classes_file[OF ca a] st
      have "w1 = w\<lparr>fs := alter a (Some (File (reset_label_text ca))) (fs w)\<rparr>" by simp
      then have "fs w1 = alter a (Some (File (reset_label_text ca))) (fs w)" by simp
      with alter_file_keeps_file[OF ca Cons.prems(3)] False show ?thesis by simp
    next
      case nf: False
      from reset_label_classes_other[OF nf st] Cons.prems(3) show ?thesis by simp
    qed
    from Cons.IH[OF run ps this Cons.prems(4)] False show ?thesis by simp
  qed
qed

lemma rglob_txt_nonempty: "[] \<notin> set (rglob_txt t)"
  unfolding rglob_txt_def using rglob_from_shape[of "[]" "[]" t] by auto

lemma rglob_txt_mem:
  "lookup t p = Some nd \<Longrightarrow> p \<noteq> [] \<Longrightarrow> endswith (last p) ''.txt'' \<Longrightarrow> p \<in> set (rglob_txt t)"
  unfolding rglob_txt_def using rglob_from_mem[of t p nd "[]"] by simp

lemma update_all_labels_content:
  assumes "lookup (fs w) p = Some (File content)" "p \<noteq> []" "endswith (last p) ''.txt''"
  shows "\<exists>w'. update_all_labels w = Returned w' \<and>
           lookup (fs w') p = Some (File (reset_label_text content))"
proof -
  let ?w1 = "print UpdatingLabels w"
  have fs1: "fs ?w1 = fs w" by (simp add: print_def)
  have "\<exists>w'. for_each reset_label_classes (rglob_txt (fs w)) ?w1 = Returned w'"
    by (rule for_each_returns) (use reset_label_classes_returns in blast)
  then obtain w' where run: "for_each reset_label_classes (rglob_txt (fs w)) ?w1 = Returned w'"
    by blast
  have mem: "p \<in> set (rglob_txt (fs w))" using assms by (rule rglob_txt_mem)
  from reset_loop_content[OF run rglob_txt_nonempty, of p content] assms(1,2) mem
  have "lookup (fs w') p = Some (File (reset_label_text content))" by (simp add: fs1)
  with run show ?thesis by (simp add: update_all_labels_def Let_def fs1)
qed

lemma reset_label_classes_twice:
  assumes "reset_label_classes p w = Returned w1" "reset_label_classes p w1 = Returned w2"
  shows "fs w2 = fs w1"
proof (cases "is_file (fs w) p \<and> p \<noteq> []")
  case True
  then obtain c where c: "lookup (fs w) p = Some (File c)" and p: "p \<noteq> []"
    by (auto simp: is_file_def split: option.splits node.splits)
  from reset_label_classes_file[OF c p] assms(1)
  have w1: "w1 = w\<lparr>fs := alter p (Some (File (reset_label_text c))) (fs w)\<rparr>" by simp
  have "lookup (fs w1) p = Some (File (reset_label_text c))"
    using p lookup_parent_dir[OF c p] by (simp add: w1 lookup_alter_same)
  from reset_label_classes_file[OF this p] assms(2)
  have "w2 = w1\<lparr>fs := alter p (Some (File (reset_label_text (reset_label_text c)))) (fs w1)\<rparr>"
    by simp
  then show ?thesis by (simp add: w1 reset_label_text_idem alter_twice)
next
  case False
  show ?thesis
  proof (cases "is_file (fs w) p")
    case nf: False
    from reset_label_classes_other[OF nf assms(1)] have e: "fs w1 = fs w" .
    with nf have "\<not> is_file (fs w1) p" by simp
    from reset_label_classes_other[OF this assms(2)] show ?thesis .
  next
    case True
    with False have p: "p = []" by simp
    have "\<And>w w'. reset_label_classes [] w = Returned w' \<Longrightarrow> fs w' = fs w"
      by (auto simp: reset_label_classes_def read_text_def write_text_def print_def
          split: option.splits node.splits sum.splits)
    from this[OF assms(2)[unfolded p]] show ?thesis .
  qed
qed

section \<open>The claims\<close>

subsection \<open>Flattening\<close>

text \<open>
  Claim C1. Every file of the subtree, the files directly in the base directory
  included, is directly in the base directory after \<^verbatim>\<open>flatten_all_files\<close>.
  The code does not do this for a \<^verbatim>\<open>.jpg\<close> file that is already in the base
  directory: source and destination are the same path, the destination exists and is
  unlinked, and the move then finds no source. The base directory that held only
  \<^verbatim>\<open>a.jpg\<close> is empty afterwards, and one error is printed.
\<close>

theorem flatten_deletes_root_jpg:
  "flatten_all_files \<lparr>fs = Dir [(''a.jpg'', File content)], out = []\<rparr> =
     Returned \<lparr>fs = Dir [], out = [Flattening, ErrorMoving [''a.jpg''] [] FileNotFoundError]\<rparr>"
  by code_simp

text \<open>
  Claim C2, as amended. When the destination path in the base directory holds a
  regular file other than the incoming file, the incoming file replaces it, whatever
  its extension: the move succeeds, the source is gone, the destination has the
  content of the incoming file, and nothing is printed. (For \<^verbatim>\<open>.jpg\<close> the
  destination is unlinked first; for every other extension, \<^verbatim>\<open>.png\<close> and
  \<^verbatim>\<open>.txt\<close> included, the move itself overwrites it.)
\<close>

theorem flatten_collision_overwrites:
  assumes src: "lookup (fs w) src = Some (File c)"
    and dst: "lookup (fs w) [last src] = Some (File c')"
    and ne: "src \<noteq> [last src]"
  shows "\<exists>w'. move_file_safely src [] w = Returned w' \<and>
           lookup (fs w') [last src] = Some (File c) \<and> lookup (fs w') src = None \<and>
           out w' = out w"
proof -
  let ?n = "last src"
  have root: "is_dir (fs w) []" using lookup_parent_dir[OF dst] by simp
  have nd: "\<not> is_dir (fs w) [?n]" using dst by (simp add: is_dir_def)
  have ex: "exists (fs w) [?n]" using dst by (simp add: exists_def)
  show ?thesis
  proof (cases "py_suffix ?n = ''.jpg''")
    case False
    from move_file_to[OF src ne _ _ nd] root
    obtain t' where "shutil_move src [?n] (fs w) = Inr t'" "lookup t' [?n] = Some (File c)"
      "lookup t' src = None" by auto
    with False show ?thesis by (simp add: move_file_safely_def)
  next
    case True
    let ?t1 = "alter [?n] None (fs w)"
    have un: "unlink [?n] (fs w) = Inr ?t1" using dst by (simp add: unlink_def)
    note r = os_rename_file(2,3)[OF src ne _ _ nd]
    have src1: "lookup ?t1 src = Some (File c)"
      using r root src by (simp add: lookup_alter_other)
    have "lookup ?t1 [?n] = None" using root by (simp add: lookup_alter_same)
    then have nd1: "\<not> is_dir ?t1 [?n]" by (simp add: is_dir_def)
    have root1: "is_dir ?t1 (butlast [?n])" using root by (simp add: is_dir_alter)
    from move_file_to[OF src1 ne _ root1 nd1]
    obtain t' where "shutil_move src [?n] ?t1 = Inr t'" "lookup t' [?n] = Some (File c)"
      "lookup t' src = None" by auto
    with True ex un show ?thesis by (simp add: move_file_safely_def)
  qed
qed

theorem flatten_collision_overwrites_witness:
  "move_file_safely [''sub'', ''a.jpg''] []
     \<lparr>fs = Dir [(''a.jpg'', File [1]), (''sub'', Dir [(''a.jpg'', File [2])])], out = []\<rparr>
   = Returned \<lparr>fs = Dir [(''sub'', Dir []), (''a.jpg'', File [2])], out = []\<rparr>
   \<and> (\<exists>w'. move_file_safely [''sub'', ''a.png''] []
          \<lparr>fs = Dir [(''a.png'', File [1]), (''sub'', Dir [(''a.png'', File [2])])], out = []\<rparr>
        = Returned w' \<and> lookup (fs w') [''a.png''] = Some (File [2])
          \<and> lookup (fs w') [''sub'', ''a.png''] = None \<and> out w' = [])"
proof
  show "move_file_safely [''sub'', ''a.jpg''] []
     \<lparr>fs = Dir [(''a.jpg'', File [1]), (''sub'', Dir [(''a.jpg'', File [2])])], out = []\<rparr>
   = Returned \<lparr>fs = Dir [(''sub'', Dir []), (''a.jpg'', File [2])], out = []\<rparr>"
    by code_simp
  let ?w = "\<lparr>fs = Dir [(''a.png'', File [1]), (''sub'', Dir [(''a.png'', File [2])])], out = []\<rparr>"
  have "lookup (fs ?w) [''sub'', ''a.png''] = Some (File [2])"
    "lookup (fs ?w) [last [''sub'', ''a.png'']] = Some (File [1])"
    "[''sub'', ''a.png''] \<noteq> [last [''sub'', ''a.png'']]"
    by simp_all
  from flatten_collision_overwrites[OF this]
  show "\<exists>w'. move_file_safely [''sub'', ''a.png''] [] ?w = Returned w' \<and>
     lookup (fs w') [''a.png''] = Some (File [2]) \<and> lookup (fs w') [''sub'', ''a.png''] = None \<and>
     out w' = []" by simp
qed

text \<open>
  The claim as stated fails for a label file: \<^verbatim>\<open>sub/b.txt\<close> meets an existing
  \<^verbatim>\<open>b.txt\<close>; the existing file is not preserved, the move does not fail and
  nothing is printed.
\<close>

theorem flatten_nonimage_collision_counterexample:
  "move_file_safely [''sub'', ''b.txt''] []
     \<lparr>fs = Dir [(''b.txt'', File [49]), (''sub'', Dir [(''b.txt'', File [50])])], out = []\<rparr>
   = Returned \<lparr>fs = Dir [(''b.txt'', File [50]), (''sub'', Dir [])], out = []\<rparr>"
  by code_simp

subsection \<open>Label normalisation\<close>

text \<open>
  Claim C3. For every regular file below the base directory whose name ends in
  \<^verbatim>\<open>.txt\<close>, \<^verbatim>\<open>update_all_labels\<close> leaves in the file the normalised content:
  read back line by line, its token lists are those of the non-blank lines of the old
  content, in order, each with its first token replaced by \<^verbatim>\<open>'0'\<close> and its
  other tokens unchanged in number and order; no line of the new content is blank;
  and every line is its tokens joined by single spaces, followed by a newline.
\<close>

theorem update_all_labels_normalizes:
  assumes "lookup (fs w) p = Some (File content)" "p \<noteq> []" "endswith (last p) ''.txt''"
  shows "\<exists>w' content'. update_all_labels w = Returned w' \<and>
           lookup (fs w') p = Some (File content') \<and>
           content' = reset_label_text content \<and>
           map (\<lambda>l. str_split (str_strip l)) (file_readlines content') =
             map (\<lambda>parts. [48] # tl parts)
               (filter (\<lambda>parts. parts \<noteq> [])
                  (map (\<lambda>l. str_split (str_strip l)) (file_readlines content))) \<and>
           (\<forall>l \<in> set (file_readlines content').
              str_split (str_strip l) \<noteq> [] \<and> hd (str_split (str_strip l)) = [48] \<and>
              l = str_join [SP] (str_split (str_strip l)) @ [LF])"
proof -
  from update_all_labels_content[OF assms] obtain w'
    where "update_all_labels w = Returned w'"
      and "lookup (fs w') p = Some (File (reset_label_text content))" by (elim exE conjE)
  with reset_label_text_lines[of content] show ?thesis
    by (intro exI[of _ w'] exI[of _ "reset_label_text content"] conjI refl) (elim conjE; assumption)+
qed

theorem update_all_labels_normalizes_witness:
  "\<exists>w'. update_all_labels
           \<lparr>fs = Dir [(''a.txt'', File [55, 32, 32, 49, 9, 50, 13, 10, 32, 10, 51, 32, 52])],
            out = []\<rparr> = Returned w' \<and>
         lookup (fs w') [''a.txt''] = Some (File [48, 32, 49, 32, 50, 10, 48, 32, 52, 10]) \<and>
         map (\<lambda>l. str_split (str_strip l)) (file_readlines [48, 32, 49, 32, 50, 10, 48, 32, 52, 10]) =
           [[[48], [49], [50]], [[48], [52]]]"
proof -
  let ?c = "[55, 32, 32, 49, 9, 50, 13, 10, 32, 10, 51, 32, 52] :: pystr"
  let ?c' = "[48, 32, 49, 32, 50, 10, 48, 32, 52, 10] :: pystr"
  let ?w = "\<lparr>fs = Dir [(''a.txt'', File ?c)], out = []\<rparr>"
  have h1: "lookup (fs ?w) [''a.txt''] = Some (File ?c)" by simp
  have h2: "[''a.txt''] \<noteq> []" by simp
  have h3: "endswith (last [''a.txt'']) ''.txt''" by (simp add: endswith_def)
  have r: "reset_label_text ?c = ?c'"
    by (simp add: reset_label_text_def file_readlines_def LF_def CR_def SP_def str_strip_def
        isspace_def Let_def)
  have toks: "map (\<lambda>l. str_split (str_strip l)) (file_readlines ?c') = [[[48], [49], [50]], [[48], [52]]]"
    by (simp add: file_readlines_def LF_def CR_def str_strip_def isspace_def)
  from update_all_labels_normalizes[OF h1 h2 h3] obtain w'
    where "update_all_labels ?w = Returned w'"
      and "lookup (fs w') [''a.txt''] = Some (File (reset_label_text ?c))"
    by (elim exE conjE) (rule that, assumption, simp only:)
  with r toks show ?thesis by (intro exI[of _ w'] conjI) (simp_all only:)
qed

text \<open>
  Claim C4. Label normalisation is idempotent on file content: normalising the
  normalised content gives the same content, and a second run of
  \<^verbatim>\<open>_reset_label_classes\<close> on a file leaves the tree as the first run left it.
\<close>

theorem label_normalization_idempotent:
  "reset_label_text (reset_label_text content) = reset_label_text content \<and>
   (\<forall>w1 w2. reset_label_classes file_path w = Returned w1 \<and>
      reset_label_classes file_path w1 = Returned w2 \<longrightarrow> fs w2 = fs w1)"
  using reset_label_text_idem reset_label_classes_twice by blast

theorem label_normalization_idempotent_witness:
  "reset_label_classes [''a.txt''] \<lparr>fs = Dir [(''a.txt'', File [55, 32, 49, 13, 10, 10])], out = []\<rparr> =
     Returned \<lparr>fs = Dir [(''a.txt'', File [48, 32, 49, 10])], out = []\<rparr> \<and>
   reset_label_classes [''a.txt''] \<lparr>fs = Dir [(''a.txt'', File [48, 32, 49, 10])], out = []\<rparr> =
     Returned \<lparr>fs = Dir [(''a.txt'', File [48, 32, 49, 10])], out = []\<rparr> \<and>
   reset_label_text (reset_label_text [55, 32, 49, 13, 10, 10]) = [48, 32, 49, 10]"
proof -
  let ?w = "\<lparr>fs = Dir [(''a.txt'', File [55, 32, 49, 13, 10, 10])], out = []\<rparr>"
  let ?w1 = "\<lparr>fs = Dir [(''a.txt'', File [48, 32, 49, 10])], out = []\<rparr>"
  have r: "reset_label_text [55, 32, 49, 13, 10, 10] = [48, 32, 49, 10]"
    by (simp add: reset_label_text_def file_readlines_def LF_def CR_def SP_def str_strip_def
        isspace_def Let_def)
  have r2: "reset_label_text [48, 32, 49, 10] = [48, 32, 49, 10]"
    by (simp add: reset_label_text_def file_readlines_def LF_def CR_def SP_def str_strip_def
        isspace_def Let_def)
  have s1: "reset_label_classes [''a.txt''] ?w = Returned ?w1"
    by (simp add: reset_label_classes_def read_text_def write_text_def r)
  have s2: "reset_label_classes [''a.txt''] ?w1 = Returned ?w1"
    by (simp add: reset_label_classes_def read_text_def write_text_def r2)
  note i = label_normalization_idempotent[of "[55, 32, 49, 13, 10, 10]" "[''a.txt'']" ?w]
  from i[THEN conjunct2, THEN spec, THEN spec, THEN mp, OF conjI[OF s1 s2]]
    i[THEN conjunct1] r s1 s2
  show ?thesis by (simp only: simp_thms)
qed

subsection \<open>Splitting\<close>

text \<open>
  Claim C5, as amended. Provided no regular file is where the splitter needs a
  directory (at \<^verbatim>\<open>images\<close>, \<^verbatim>\<open>labels\<close> or one of the four destination
  directories) and no directory sits at the destination path of the file, every
  recognized regular file directly under the base directory (extension
  \<^verbatim>\<open>.jpg\<close>, \<^verbatim>\<open>.png\<close> or \<^verbatim>\<open>.txt\<close>) is, after \<^verbatim>\<open>split_dataset\<close>, at
  category/split/name with its content and no longer in the base directory; the
  category is images for \<^verbatim>\<open>.jpg\<close> and \<^verbatim>\<open>.png\<close> and labels for \<^verbatim>\<open>.txt\<close>; the
  split is train exactly when the draw of the file is below the ratio; the entries
  of that name in the other three directories are as they were before; and the four
  directories exist.
\<close>

theorem split_dataset_places_file:
  assumes src: "lookup (fs w) [n] = Some (File content)"
    and ext: "py_suffix n \<in> {''.jpg'', ''.png'', ''.txt''}"
    and clear: "split_dirs_free (fs w)"
    and category: "category = (if py_suffix n \<in> {''.jpg'', ''.png''} then ''images'' else ''labels'')"
    and split: "split = (if random [n] < train_ratio then ''train'' else ''val'')"
    and free: "\<not> is_dir (fs w) [category, split, n]"
  shows "\<exists>w'. split_dataset train_ratio random w = Returned w' \<and>
           lookup (fs w') [category, split, n] = Some (File content) \<and>
           lookup (fs w') [n] = None \<and>
           (\<forall>c \<in> {''images'', ''labels''}. \<forall>s \<in> {''train'', ''val''}.
              is_dir (fs w') [c, s] \<and>
              ([c, s] \<noteq> [category, split] \<longrightarrow>
                 lookup (fs w') [c, s, n] = lookup (fs w) [c, s, n]))"
proof -
  have "is_dir (fs w) []" using lookup_parent_dir[OF src] by simp
  with clear obtain w1 where dirs: "create_split_dirs (print Splitting w) = Returned w1"
    using create_split_dirs_succeeds[of "print Splitting w"] by (auto simp: print_def)
  have d: "dest_of train_ratio random n = [category, split, n]"
    by (simp add: dest_of_def category_of_def split_of_def category split)
  have "movable (File content) (lookup (fs w) (dest_of train_ratio random n))"
    using free unfolding d movable_def is_dir_def
    by (cases "lookup (fs w) [category, split, n]") (auto split: node.splits)
  from split_dataset_moves[OF src ext dirs this] obtain w' where
    run: "split_dataset train_ratio random w = Returned w'" and ready: "split_ready (fs w')"
    and at: "lookup (fs w') (dest_of train_ratio random n) = Some (File content)"
    and gone: "lookup (fs w') [n] = None"
    and keep: "\<And>c s. c \<in> {''images'', ''labels''} \<Longrightarrow> [c, s, n] \<noteq> dest_of train_ratio random n \<Longrightarrow>
              lookup (fs w') [c, s, n] = lookup (fs w) [c, s, n]"
    by blast
  have "is_dir (fs w') [c, s]" if "c \<in> {''images'', ''labels''}" "s \<in> {''train'', ''val''}" for c s
    using ready that by (auto simp: split_ready_def)
  moreover have "lookup (fs w') [c, s, n] = lookup (fs w) [c, s, n]"
    if "c \<in> {''images'', ''labels''}" "[c, s] \<noteq> [category, split]" for c s
    using keep[OF that(1), of s] that(2) unfolding d by simp
  ultimately show ?thesis using run at gone unfolding d by blast
qed

theorem split_dataset_places_file_witness:
  "\<exists>w'. split_dataset (4 / 5) (always (1 / 2))
           \<lparr>fs = Dir [(''a.jpg'', File [1]), (''b.txt'', File [2])], out = []\<rparr> = Returned w' \<and>
         lookup (fs w') [''images'', ''train'', ''a.jpg''] = Some (File [1]) \<and>
         lookup (fs w') [''a.jpg''] = None \<and>
         is_dir (fs w') [''labels'', ''val''] \<and>
         lookup (fs w') [''images'', ''val'', ''a.jpg''] = None"
proof -
  let ?w = "\<lparr>fs = Dir [(''a.jpg'', File [1]), (''b.txt'', File [2])], out = []\<rparr>"
  have h1: "lookup (fs ?w) [''a.jpg''] = Some (File [1])" by simp
  have h2: "py_suffix ''a.jpg'' \<in> {''.jpg'', ''.png'', ''.txt''}" by code_simp
  have h3: "split_dirs_free (fs ?w)" by code_simp
  have h4: "''images'' = (if py_suffix ''a.jpg'' \<in> {''.jpg'', ''.png''} then ''images'' else ''labels'')"
    by code_simp
  have h5: "''train'' = (if always (1 / 2) [''a.jpg''] < 4 / 5 then ''train'' else ''val'')"
    by (simp add: always_def)
  have h6: "\<not> is_dir (fs ?w) [''images'', ''train'', ''a.jpg'']" by code_simp
  have h7: "lookup (fs ?w) [''images'', ''val'', ''a.jpg''] = None" by simp
  from split_dataset_places_file[where random = "always (1 / 2)" and train_ratio = "4 / 5",
      OF h1 h2 h3 h4 h5 h6] h7
  show ?thesis by auto
qed

text \<open>
  The claim as stated fails in two situations. With a regular file named
  \<^verbatim>\<open>images\<close> in the base directory, \<^verbatim>\<open>mkdir\<close> raises, the exception leaves
  \<^verbatim>\<open>split_dataset\<close>, no directory is created and \<^verbatim>\<open>a.jpg\<close> stays where it was.
  With a directory at \<^verbatim>\<open>images/train/a.jpg\<close>, the file is moved into that
  directory and is not an entry of \<^verbatim>\<open>images/train\<close>.
\<close>

theorem split_dataset_blocked_counterexample:
  "split_dataset (4 / 5) (always (1 / 2))
     \<lparr>fs = Dir [(''images'', File []), (''a.jpg'', File [1])], out = []\<rparr> =
   Raised NotADirectoryError
     \<lparr>fs = Dir [(''images'', File []), (''a.jpg'', File [1])], out = [Splitting]\<rparr> \<and>
   split_dataset (4 / 5) (always (1 / 2))
     \<lparr>fs = Dir [(''a.jpg'', File [1]),
                (''images'', Dir [(''train'', Dir [(''a.jpg'', Dir [])])])], out = []\<rparr> =
   Returned
     \<lparr>fs = Dir [(''images'', Dir [(''train'', Dir [(''a.jpg'', Dir [(''a.jpg'', File [1])])]),
                                  (''val'', Dir [])]),
                (''labels'', Dir [(''train'', Dir []), (''val'', Dir [])])],
      out = [Splitting]\<rparr>"
  by code_simp

text \<open>
  Claim C10. \<^verbatim>\<open>split_dataset\<close> selects the entries directly under the base
  directory by their extension alone; whether an entry is a regular file is not
  looked at. So a directory with a recognized extension is among the selected
  entries, and (when its destination is free and no regular file is where the
  splitter needs a directory) the whole directory, with all it holds, is moved into
  the split directory its extension and its draw give it.
\<close>

theorem split_dataset_moves_directory:
  assumes src: "lookup (fs w) [n] = Some (Dir entries)"
    and ext: "py_suffix n \<in> {''.jpg'', ''.png'', ''.txt''}"
    and clear: "split_dirs_free (fs w)"
    and category: "category = (if py_suffix n \<in> {''.jpg'', ''.png''} then ''images'' else ''labels'')"
    and split: "split = (if random [n] < train_ratio then ''train'' else ''val'')"
    and free: "lookup (fs w) [category, split, n] = None"
  shows "set (split_files t) =
           {[m] | m. exists t [m] \<and> py_suffix m \<in> {''.jpg'', ''.png'', ''.txt''}} \<and>
         (\<exists>w1 w'. create_split_dirs (print Splitting w) = Returned w1 \<and>
            [n] \<in> set (split_files (fs w1)) \<and>
            split_dataset train_ratio random w = Returned w' \<and>
            lookup (fs w') [category, split, n] = Some (Dir entries) \<and>
            lookup (fs w') [n] = None)"
proof
  show "set (split_files t) =
           {[m] | m. exists t [m] \<and> py_suffix m \<in> {''.jpg'', ''.png'', ''.txt''}}"
    by (rule split_files_set)
  have "is_dir (fs w) []" using lookup_parent_dir[OF src] by simp
  with clear obtain w1 where dirs: "create_split_dirs (print Splitting w) = Returned w1"
    using create_split_dirs_succeeds[of "print Splitting w"] by (auto simp: print_def)
  have pn: "plain_name n" using ext py_suffix_category_dirs by (auto simp: plain_name_def)
  have "lookup (fs w1) [n] = Some (Dir entries)"
    using create_split_dirs_ok(3)[OF dirs pn] src by (simp add: print_def)
  then have mem: "[n] \<in> set (split_files (fs w1))" using ext by (rule split_files_mem)
  have d: "dest_of train_ratio random n = [category, split, n]"
    by (simp add: dest_of_def category_of_def split_of_def category split)
  have "movable (Dir entries) (lookup (fs w) (dest_of train_ratio random n))"
    using free unfolding d by (simp add: movable_def)
  from split_dataset_moves[OF src ext dirs this] obtain w'
    where "split_dataset train_ratio random w = Returned w'"
      and "lookup (fs w') [category, split, n] = Some (Dir entries)"
      and "lookup (fs w') [n] = None"
    unfolding d by blast
  with dirs mem
  show "\<exists>w1 w'. create_split_dirs (print Splitting w) = Returned w1 \<and>
            [n] \<in> set (split_files (fs w1)) \<and>
            split_dataset train_ratio random w = Returned w' \<and>
            lookup (fs w') [category, split, n] = Some (Dir entries) \<and>
            lookup (fs w') [n] = None"
    by blast
qed

theorem split_dataset_moves_directory_witness:
  "[''shots.jpg''] \<in> set (split_files (Dir [(''shots.jpg'', Dir [(''x'', File [7])])])) \<and>
   (\<exists>w'. split_dataset (4 / 5) (always (9 / 10))
           \<lparr>fs = Dir [(''shots.jpg'', Dir [(''x'', File [7])])], out = []\<rparr> = Returned w' \<and>
         lookup (fs w') [''images'', ''val'', ''shots.jpg''] = Some (Dir [(''x'', File [7])]) \<and>
         lookup (fs w') [''shots.jpg''] = None)"
proof -
  let ?t = "Dir [(''shots.jpg'', Dir [(''x'', File [7])])]"
  let ?w = "\<lparr>fs = ?t, out = []\<rparr>"
  have h1: "lookup (fs ?w) [''shots.jpg''] = Some (Dir [(''x'', File [7])])" by simp
  have h2: "py_suffix ''shots.jpg'' \<in> {''.jpg'', ''.png'', ''.txt''}" by code_simp
  have h3: "split_dirs_free (fs ?w)" by code_simp
  have h4: "''images'' = (if py_suffix ''shots.jpg'' \<in> {''.jpg'', ''.png''} then ''images'' else ''labels'')"
    by code_simp
  have h5: "''val'' = (if always (9 / 10) [''shots.jpg''] < 4 / 5 then ''train'' else ''val'')"
    by (simp add: always_def)
  have h6: "lookup (fs ?w) [''images'', ''val'', ''shots.jpg''] = None" by simp
  have ex: "exists ?t [''shots.jpg'']" by (simp add: exists_def)
  note t = split_dataset_moves_directory[where random = "always (9 / 10)"
      and train_ratio = "4 / 5" and t = ?t, OF h1 h2 h3 h4 h5 h6]
  from t[THEN conjunct1] ex h2
  have "[''shots.jpg''] \<in> set (split_files ?t)" by blast
  moreover from t[THEN conjunct2]
  have "\<exists>w'. split_dataset (4 / 5) (always (9 / 10)) ?w = Returned w' \<and>
         lookup (fs w') [''images'', ''val'', ''shots.jpg''] = Some (Dir [(''x'', File [7])]) \<and>
         lookup (fs w') [''shots.jpg''] = None" by blast
  ultimately show ?thesis by (intro conjI)
qed

subsection \<open>Cleaning\<close>

text \<open>
  Claim C6. After one call of \<^verbatim>\<open>remove_empty_dirs\<close> no directory strictly below
  the base directory is empty, those included that became empty only because the
  same call removed their last child. (Regular files are all kept.)
\<close>

theorem remove_empty_dirs_leaves_none:
  "\<exists>w'. remove_empty_dirs w = Returned w' \<and>
     (\<forall>p. p \<noteq> [] \<longrightarrow> lookup (fs w') p \<noteq> Some (Dir [])) \<and>
     (\<forall>p content. lookup (fs w) p = Some (File content) \<longrightarrow>
        lookup (fs w') p = Some (File content))"
proof -
  obtain t msgs where wb: "walk_bottom_up [] (fs w) = (t, msgs)" by (cases "walk_bottom_up [] (fs w)")
  then have t: "t = fst (walk_bottom_up [] (fs w))" by simp
  have "remove_empty_dirs w = Returned (w\<lparr>fs := t, out := out w @ msgs\<rparr>)"
    by (simp add: remove_empty_dirs_def wb)
  moreover have "\<forall>p. p \<noteq> [] \<longrightarrow> lookup t p \<noteq> Some (Dir [])"
    unfolding t using walk_no_empty_dir by blast
  moreover have "\<forall>p content. lookup (fs w) p = Some (File content) \<longrightarrow>
        lookup t p = Some (File content)"
    unfolding t using walk_keeps_files by blast
  ultimately show ?thesis by simp
qed

theorem remove_empty_dirs_leaves_none_witness:
  "remove_empty_dirs
     \<lparr>fs = Dir [(''a'', Dir [(''b'', Dir [(''c'', Dir [])])]), (''d'', Dir [(''f.txt'', File [])])],
      out = []\<rparr> =
   Returned
     \<lparr>fs = Dir [(''d'', Dir [(''f.txt'', File [])])],
      out = [RemovedEmptyDir [''a'', ''b'', ''c''], RemovedEmptyDir [''a'', ''b''],
             RemovedEmptyDir [''a'']]\<rparr> \<and>
   lookup (Dir [(''d'', Dir [(''f.txt'', File [])])]) [''a''] \<noteq> Some (Dir []) \<and>
   lookup (Dir [(''d'', Dir [(''f.txt'', File [])])]) [''d'', ''f.txt''] = Some (File [])"
proof -
  let ?w = "\<lparr>fs = Dir [(''a'', Dir [(''b'', Dir [(''c'', Dir [])])]), (''d'', Dir [(''f.txt'', File [])])],
      out = []\<rparr>"
  let ?w' = "\<lparr>fs = Dir [(''d'', Dir [(''f.txt'', File [])])],
      out = [RemovedEmptyDir [''a'', ''b'', ''c''], RemovedEmptyDir [''a'', ''b''],
             RemovedEmptyDir [''a'']]\<rparr>"
  have run: "remove_empty_dirs ?w = Returned ?w'" by code_simp
  have f: "lookup (fs ?w) [''d'', ''f.txt''] = Some (File [])" by simp
  from remove_empty_dirs_leaves_none[of ?w] run f
  have "lookup (fs ?w') [''a''] \<noteq> Some (Dir [])"
    "lookup (fs ?w') [''d'', ''f.txt''] = Some (File [])" by auto
  with run show ?thesis by simp
qed

text \<open>
  Claim C7. After \<^verbatim>\<open>remove_unwanted_files\<close> every regular file below the base
  directory has an extension that is, in lower case, one of \<^verbatim>\<open>.jpg\<close>,
  \<^verbatim>\<open>.png\<close>, \<^verbatim>\<open>.txt\<close>. The test of the cleaner lower-cases the extension, the
  selection of the splitter does not: a file directly under the base directory whose
  extension is allowed only after lower-casing (such as \<^verbatim>\<open>a.JPG\<close>) is kept by the
  cleaner, is not among the files the splitter selects, and is still in the base
  directory after \<^verbatim>\<open>split_dataset\<close>.
\<close>

theorem remove_unwanted_files_extensions:
  "\<exists>w'. remove_unwanted_files w = Returned w' \<and>
     (\<forall>p content. p \<noteq> [] \<and> lookup (fs w') p = Some (File content) \<longrightarrow>
        lower (py_suffix (last p)) \<in> {''.jpg'', ''.png'', ''.txt''}) \<and>
     (\<forall>n content. lookup (fs w) [n] = Some (File content) \<and>
        lower (py_suffix n) \<in> {''.jpg'', ''.png'', ''.txt''} \<and>
        py_suffix n \<notin> {''.jpg'', ''.png'', ''.txt''} \<longrightarrow>
          lookup (fs w') [n] = Some (File content) \<and>
          [n] \<notin> set (split_files (fs w')) \<and>
          (\<forall>r rnd w''. split_dataset r rnd w' = Returned w'' \<longrightarrow>
             lookup (fs w'') [n] = Some (File content)))"
proof -
  have "\<exists>w'. remove_unwanted_files w = Returned w'"
    unfolding remove_unwanted_files_def Let_def
    by (rule for_each_returns) (use remove_unwanted_step_returns in blast)
  then obtain w' where run: "remove_unwanted_files w = Returned w'" by blast
  note iff = remove_unwanted_files_file_iff[OF run]
  have a: "lower (py_suffix (last p)) \<in> {''.jpg'', ''.png'', ''.txt''}"
    if "p \<noteq> []" "lookup (fs w') p = Some (File content)" for p content
    using iff[OF that(1), of content] that(2) unfolding unwanted_def by blast
  have b: "lookup (fs w') [n] = Some (File content) \<and> [n] \<notin> set (split_files (fs w')) \<and>
          (\<forall>r rnd w''. split_dataset r rnd w' = Returned w'' \<longrightarrow>
             lookup (fs w'') [n] = Some (File content))"
    if src: "lookup (fs w) [n] = Some (File content)"
      and low: "lower (py_suffix n) \<in> {''.jpg'', ''.png'', ''.txt''}"
      and ext: "py_suffix n \<notin> {''.jpg'', ''.png'', ''.txt''}" for n content
  proof (intro conjI allI impI)
    have "last [n] = n" by simp
    then have "\<not> unwanted [n]" using low by (simp only: unwanted_def not_not)
    with iff[of "[n]" content] src show kept: "lookup (fs w') [n] = Some (File content)" by simp
    show "[n] \<notin> set (split_files (fs w'))" using ext by (simp add: split_files_set)
    have pn: "plain_name n"
      unfolding plain_name_def
    proof (intro conjI notI)
      assume "n = ''images''"
      with low py_suffix_category_dirs(1) lower_no_suffix show False by simp
    next
      assume "n = ''labels''"
      with low py_suffix_category_dirs(2) lower_no_suffix show False by simp
    qed
    show "lookup (fs w'') [n] = Some (File content)"
      if "split_dataset r rnd w' = Returned w''" for r rnd w''
      using split_dataset_leaves_unrecognized[OF that pn ext] kept by simp
  qed
  from run a b show ?thesis by blast
qed

theorem remove_unwanted_files_extensions_witness:
  "remove_unwanted_files
      \<lparr>fs = Dir [(''a.JPG'', File [1]), (''notes.md'', File [2]), (''b.txt'', File [3])], out = []\<rparr> =
    Returned
      \<lparr>fs = Dir [(''a.JPG'', File [1]), (''b.txt'', File [3])],
       out = [RemovingUnwanted, Removed [''notes.md'']]\<rparr> \<and>
   lower (py_suffix ''a.JPG'') = ''.jpg'' \<and> py_suffix ''a.JPG'' = ''.JPG'' \<and>
   [''a.JPG''] \<notin> set (split_files (Dir [(''a.JPG'', File [1]), (''b.txt'', File [3])])) \<and>
   (\<exists>w''. split_dataset (4 / 5) (always (1 / 2))
            \<lparr>fs = Dir [(''a.JPG'', File [1]), (''b.txt'', File [3])],
             out = [RemovingUnwanted, Removed [''notes.md'']]\<rparr> = Returned w'' \<and>
          lookup (fs w'') [''a.JPG''] = Some (File [1]))"
proof -
  let ?w = "\<lparr>fs = Dir [(''a.JPG'', File [1]), (''notes.md'', File [2]), (''b.txt'', File [3])], out = []\<rparr>"
  let ?w' = "\<lparr>fs = Dir [(''a.JPG'', File [1]), (''b.txt'', File [3])],
       out = [RemovingUnwanted, Removed [''notes.md'']]\<rparr>"
  have run: "remove_unwanted_files ?w = Returned ?w'" by code_simp
  have h1: "lookup (fs ?w) [''a.JPG''] = Some (File [1])" by simp
  have low: "lower (py_suffix ''a.JPG'') = ''.jpg''" by code_simp
  have ext: "py_suffix ''a.JPG'' = ''.JPG''" by code_simp
  have h2: "lower (py_suffix ''a.JPG'') \<in> {''.jpg'', ''.png'', ''.txt''}" using low by simp
  have h3: "py_suffix ''a.JPG'' \<notin> {''.jpg'', ''.png'', ''.txt''}" using ext by simp
  let ?w2 = "\<lparr>fs = Dir [(''a.JPG'', File [1]),
                      (''images'', Dir [(''train'', Dir []), (''val'', Dir [])]),
                      (''labels'', Dir [(''train'', Dir [(''b.txt'', File [3])]), (''val'', Dir [])])],
             out = [RemovingUnwanted, Removed [''notes.md''], Splitting]\<rparr>"
  have sp: "split_dataset (4 / 5) (always (1 / 2)) ?w' = Returned ?w2" by code_simp
  from remove_unwanted_files_extensions[of ?w] obtain w0
    where r0: "remove_unwanted_files ?w = Returned w0"
      and B: "\<forall>n content. lookup (fs ?w) [n] = Some (File content) \<and>
        lower (py_suffix n) \<in> {''.jpg'', ''.png'', ''.txt''} \<and>
        py_suffix n \<notin> {''.jpg'', ''.png'', ''.txt''} \<longrightarrow>
          lookup (fs w0) [n] = Some (File content) \<and>
          [n] \<notin> set (split_files (fs w0)) \<and>
          (\<forall>r rnd w''. split_dataset r rnd w0 = Returned w'' \<longrightarrow>
             lookup (fs w'') [n] = Some (File content))"
    by (elim exE conjE) (rule that; assumption)
  from r0 run have w0: "w0 = ?w'" by simp
  note c = B[THEN spec, THEN spec, THEN mp, OF conjI[OF h1 conjI[OF h2 h3]], unfolded w0]
  from c have nsel: "[''a.JPG''] \<notin> set (split_files (fs ?w'))" by (elim conjE)
  from c have stay: "\<forall>r rnd w''. split_dataset r rnd ?w' = Returned w'' \<longrightarrow>
             lookup (fs w'') [''a.JPG''] = Some (File [1])" by (elim conjE)
  from stay[THEN spec, THEN spec, THEN spec, THEN mp, OF sp] sp
  have "\<exists>w''. split_dataset (4 / 5) (always (1 / 2)) ?w' = Returned w'' \<and>
          lookup (fs w'') [''a.JPG''] = Some (File [1])" by (intro exI conjI)
  with run low ext nsel show ?thesis by simp
qed

subsection \<open>The manifest\<close>

text \<open>
  Claim C8. With class names cat and dog and the base directory \<^verbatim>\<open>/data/ds\<close>,
  \<^verbatim>\<open>create_yaml\<close> writes the file \<^verbatim>\<open>dataset.yaml\<close> in the base directory,
  replacing a file of that name, and its content is the serialisation of the keys
  train, val, nc, names in this order with the values \<^verbatim>\<open>/data/ds/images/train\<close>,
  \<^verbatim>\<open>/data/ds/images/val\<close>, 2 and the two names; without a list of class names,
  nc is 0 and names is the empty list. (The write is possible when no directory has
  the name of the manifest.)
\<close>

theorem create_yaml_manifest:
  assumes "is_dir (fs w) []" and "\<not> is_dir (fs w) [''dataset.yaml'']"
  shows "(\<exists>w'. create_yaml [''data'', ''ds''] safe_dump (Some [''cat'', ''dog'']) w = Returned w' \<and>
            lookup (fs w') [''dataset.yaml''] =
              Some (File (safe_dump
                [(''train'', YStr ''/data/ds/images/train''),
                 (''val'', YStr ''/data/ds/images/val''),
                 (''nc'', YInt 2),
                 (''names'', YList [''cat'', ''dog''])]))) \<and>
         (\<exists>w'. create_yaml base_dir safe_dump None w = Returned w' \<and>
            lookup (fs w') [''dataset.yaml''] =
              Some (File (safe_dump
                [(''train'', YStr (str_path (base_dir @ [''images'', ''train'']))),
                 (''val'', YStr (str_path (base_dir @ [''images'', ''val'']))),
                 (''nc'', YInt 0),
                 (''names'', YList [])])))"
proof -
  note wr = write_text_root_entry[OF assms]
  have "str_path [''data'', ''ds'', ''images'', ''train''] = ''/data/ds/images/train''"
    "str_path [''data'', ''ds'', ''images'', ''val''] = ''/data/ds/images/val''"
    by (simp_all add: str_path_def)
  then show ?thesis by (simp add: create_yaml_def wr Let_def print_def)
qed

theorem create_yaml_manifest_witness:
  "create_yaml [''data'', ''ds''] (\<lambda>data. map (\<lambda>(k, v). length k) data) (Some [''cat'', ''dog''])
       \<lparr>fs = Dir [(''dataset.yaml'', File [1, 2, 3])], out = []\<rparr> =
     Returned \<lparr>fs = Dir [(''dataset.yaml'', File [5, 3, 2, 5])], out = [Created [''dataset.yaml'']]\<rparr>"
proof -
  let ?w = "\<lparr>fs = Dir [(''dataset.yaml'', File [1, 2, 3])], out = []\<rparr>"
  let ?dump = "\<lambda>data :: (string \<times> yaml) list. map (\<lambda>(k, v). length k) data"
  have h1: "is_dir (fs ?w) []" by (simp add: is_dir_def)
  have h2: "\<not> is_dir (fs ?w) [''dataset.yaml'']" by (simp add: is_dir_def)
  have run: "create_yaml [''data'', ''ds''] ?dump (Some [''cat'', ''dog'']) ?w =
     Returned \<lparr>fs = Dir [(''dataset.yaml'', File [5, 3, 2, 5])], out = [Created [''dataset.yaml'']]\<rparr>"
    by code_simp
  from create_yaml_manifest[OF h1 h2, of ?dump] run show ?thesis by simp
qed

subsection \<open>Failures\<close>

text \<open>
  Claim C9. No failure on one entry ends a batch operation: the exception is caught
  and logged, and the operation goes on with the remaining entries.
  \<^verbatim>\<open>remove_empty_dirs\<close> does not do this for a directory that cannot be listed. The base
  directory holds, in listing order, the empty directory \<^verbatim>\<open>old\<close>, the directory
  \<^verbatim>\<open>locked\<close> with one file, and the empty directory \<^verbatim>\<open>tmp\<close>. When the listing of
  \<^verbatim>\<open>locked\<close> is refused, the method removes \<^verbatim>\<open>old\<close> and then raises
  \<^verbatim>\<open>PermissionError\<close> to its caller: the test \<^verbatim>\<open>any(path.iterdir())\<close> stands before
  \<^verbatim>\<open>try\<close>. Nothing is printed about the failure, and \<^verbatim>\<open>tmp\<close> is still there. When
  instead the removal of \<^verbatim>\<open>old\<close> is refused, which happens inside \<^verbatim>\<open>try\<close>, the method
  prints the failure, removes \<^verbatim>\<open>tmp\<close> and returns.
\<close>

theorem remove_empty_dirs_listing_failure_raises:
  "remove_empty_dirs_faults
      \<lparr>listdir_denied = denied_at [''locked''], rmdir_denied = denied_nowhere\<rparr>
      \<lparr>fs = Dir [(''old'', Dir []), (''locked'', Dir [(''a.txt'', File content)]),
                 (''tmp'', Dir [])],
       out = []\<rparr> =
     Raised PermissionError
      \<lparr>fs = Dir [(''locked'', Dir [(''a.txt'', File content)]), (''tmp'', Dir [])],
       out = [RemovedEmptyDir [''old'']]\<rparr> \<and>
   remove_empty_dirs_faults
      \<lparr>listdir_denied = denied_nowhere, rmdir_denied = denied_at [''old'']\<rparr>
      \<lparr>fs = Dir [(''old'', Dir []), (''locked'', Dir [(''a.txt'', File content)]),
                 (''tmp'', Dir [])],
       out = []\<rparr> =
     Returned
      \<lparr>fs = Dir [(''old'', Dir []), (''locked'', Dir [(''a.txt'', File content)])],
       out = [FailedToRemove [''old''] PermissionError, RemovedEmptyDir [''tmp'']]\<rparr>"
  by code_simp

end
